theory Spec2Isabelle
  imports Main "HOL-Library.AList"
begin

section \<open>Shared data model\<close>

text \<open>
  Queue names and connection identities are opaque strings. A JavaScript \<^verbatim>\<open>Map\<close> is
  an association list in insertion order (\<^const>\<open>AList.update\<close> overwrites the value of
  an existing key in place and appends a new key, as \<^verbatim>\<open>Map.set\<close> does;
  \<^const>\<open>AList.delete\<close> is \<^verbatim>\<open>Map.delete\<close>; \<^const>\<open>map_of\<close> is \<^verbatim>\<open>Map.get\<close>).
  A JavaScript \<^verbatim>\<open>Set\<close> is a list in insertion order.
\<close>

type_synonym queue_name = string
type_synonym client_id = string

text \<open>\<^verbatim>\<open>interface QueueMessage { id?: string; body: string; attributes?: Record<string, string> }\<close>\<close>

record queue_message =
  id_opt :: "string option"
  body :: string
  attributes :: "(string \<times> string) list option"

text \<open>
  What can be thrown: the error classes of \<^verbatim>\<open>queue.errors.ts\<close>, an error of the backend
  that \<open>isQueueNotFoundError\<close> recognises, and any other value.
\<close>

datatype queue_error =
    QueueNotFoundError queue_name
  | QueueCreationError queue_name
  | QueuePublishError queue_name
  | QueueSubscribeError queue_name
  | NonExistentQueue
  | OtherError string

text \<open>How an awaited promise of an external collaborator settles.\<close>

datatype outcome = Resolves | Rejects queue_error

text \<open>How a call of this program ends: it returns, or it throws.\<close>

datatype completion = Returned | Threw queue_error

text \<open>
  An object of string properties (\<^verbatim>\<open>Record<string, string>\<close>, created as \<^verbatim>\<open>{}\<close>) is the
  list of its own properties, and \<open>assign\<close> is the statement \<^verbatim>\<open>attributes[key] = v\<close> with
  a string \<open>v\<close>: it sets the property, or overwrites it. Under the key \<^verbatim>\<open>__proto__\<close> it
  does nothing: that key is the accessor inherited from \<^verbatim>\<open>Object.prototype\<close>, whose
  setter ignores a value that is neither an object nor null. The entries of an object
  given to a translation are what \<^verbatim>\<open>Object.entries\<close> returns, each key once and in the
  order in which JavaScript enumerates them; assigning in that order keeps it.
\<close>

definition assign :: "(string \<times> string) list \<Rightarrow> string \<Rightarrow> string \<Rightarrow> (string \<times> string) list" where
  "assign properties key v =
     (if key = ''__proto__'' then properties else AList.update key v properties)"

definition set_add :: "'a list \<Rightarrow> 'a \<Rightarrow> 'a list" where
  "set_add s x = (if x \<in> set s then s else s @ [x])"

definition set_delete :: "'a list \<Rightarrow> 'a \<Rightarrow> 'a list" where
  "set_delete s x = removeAll x s"

section \<open>The subscription multiplexer: \<^verbatim>\<open>QueueGateway\<close>\<close>

text \<open>
  The handler stored per queue is a closure over \<open>queueName\<close> alone; everything else it
  reads (\<open>clientSubscriptions\<close>, the server's socket map) it reads from the gateway when
  it is invoked.
\<close>

datatype handler = FanOut queue_name

text \<open>
  A socket of the transport, as far as the gateway sees it: a call of \<^verbatim>\<open>socket.emit\<close>
  returns or throws.
\<close>

datatype socket = EmitOk | EmitThrows

datatype payload =
    Notice queue_name string
  | Delivery queue_name queue_message

type_synonym emission = "client_id \<times> string \<times> payload"

datatype facade_call =
    FSubscribe queue_name handler
  | FUnsubscribe queue_name
  | FPublish queue_name queue_message

text \<open>
  The gateway's two maps, the transport's socket map \<^verbatim>\<open>server.sockets.sockets\<close> (which
  the gateway only reads), and the effects of the gateway in the order they happen: the
  events emitted to sockets, the calls made on the \<^verbatim>\<open>QueueService\<close> facade, and the
  facade \<open>unsubscribe\<close> promises that have not settled yet. Logging is left out.
\<close>

record gateway =
  clientSubscriptions :: "(client_id \<times> queue_name list) list"
  queueHandlers :: "(queue_name \<times> handler) list"
  server_sockets :: "(client_id \<times> socket) list"
  emitted :: "emission list"
  facadeCalls :: "facade_call list"
  pendingUnsubscribes :: "queue_name list"

definition new_gateway :: "(client_id \<times> socket) list \<Rightarrow> gateway" where
  "new_gateway socks =
     \<lparr>clientSubscriptions = [], queueHandlers = [], server_sockets = socks,
      emitted = [], facadeCalls = [], pendingUnsubscribes = []\<rparr>"

definition emit :: "gateway \<Rightarrow> client_id \<Rightarrow> string \<Rightarrow> payload \<Rightarrow> gateway" where
  "emit g client event p = g\<lparr>emitted := emitted g @ [(client, event, p)]\<rparr>"

definition handleConnection :: "gateway \<Rightarrow> client_id \<Rightarrow> gateway" where
  "handleConnection g client =
     g\<lparr>clientSubscriptions := AList.update client [] (clientSubscriptions g)\<rparr>"

text \<open>
  The fan-out handler. \<open>clients\<close> is computed from the interest-sets of the gateway at
  the moment of the call; the loop then looks every client's socket up and emits to it
  when there is one. No \<^verbatim>\<open>try\<close> surrounds \<^verbatim>\<open>socket.emit\<close>: a throwing emit ends the
  loop and the handler.
\<close>

definition clients :: "gateway \<Rightarrow> queue_name \<Rightarrow> client_id list" where
  "clients g queueName =
     map fst (filter (\<lambda>(clientId, queues). queueName \<in> set queues) (clientSubscriptions g))"

fun deliver :: "gateway \<Rightarrow> queue_name \<Rightarrow> queue_message \<Rightarrow> client_id list \<Rightarrow> completion \<times> gateway" where
  "deliver g queueName message [] = (Returned, g)"
| "deliver g queueName message (clientId # rest) =
     (case map_of (server_sockets g) clientId of
        None \<Rightarrow> deliver g queueName message rest
      | Some EmitThrows \<Rightarrow> (Threw (OtherError ''emit''), g)
      | Some EmitOk \<Rightarrow>
          deliver (emit g clientId ''queue:message'' (Delivery queueName message))
            queueName message rest)"

fun invoke :: "handler \<Rightarrow> gateway \<Rightarrow> queue_message \<Rightarrow> completion \<times> gateway" where
  "invoke (FanOut queueName) g message = deliver g queueName message (clients g queueName)"

text \<open>
  \<open>handleSubscribe\<close>. The awaited \<^verbatim>\<open>queueService.subscribe\<close> is a parameter: how its
  promise settles. The handler is stored in \<open>queueHandlers\<close> before the facade is called,
  and a rejection leaves the function at the \<^verbatim>\<open>await\<close>. The function is modelled as one
  step: no other gateway operation runs while it is suspended.
\<close>

definition handleSubscribe ::
  "gateway \<Rightarrow> client_id \<Rightarrow> queue_name \<Rightarrow> outcome \<Rightarrow> completion \<times> gateway" where
  "handleSubscribe g client queueName facade =
     (let subscriptions = map_of (clientSubscriptions g) client in
      if (case subscriptions of None \<Rightarrow> False | Some s \<Rightarrow> queueName \<in> set s) then
        (Returned, emit g client ''queue:subscribed''
                     (Notice queueName ''Already subscribed to this queue''))
      else
        let (awaited, g1) =
              (if queueName \<notin> fst ` set (queueHandlers g) then
                 (facade,
                  g\<lparr>queueHandlers := AList.update queueName (FanOut queueName) (queueHandlers g),
                    facadeCalls := facadeCalls g @ [FSubscribe queueName (FanOut queueName)]\<rparr>)
               else (Resolves, g))
        in case awaited of
             Rejects e \<Rightarrow> (Threw e, g1)
           | Resolves \<Rightarrow>
               let g2 = (case subscriptions of
                           None \<Rightarrow> g1\<lparr>clientSubscriptions :=
                                       AList.update client [queueName] (clientSubscriptions g1)\<rparr>
                         | Some s \<Rightarrow> g1\<lparr>clientSubscriptions :=
                                       AList.update client (set_add s queueName) (clientSubscriptions g1)\<rparr>)
               in (Returned, emit g2 client ''queue:subscribed''
                               (Notice queueName ''Successfully subscribed to queue'')))"

text \<open>
  \<open>unsubscribeFromQueue\<close>. The facade's \<open>unsubscribe\<close> is called in this step when no
  interest-set holds the queue any more; its promise is not awaited, so what the
  \<^verbatim>\<open>.then\<close> callback does is a step of its own, \<open>unsubscribeSettled\<close>.
\<close>

definition unsubscribeFromQueue :: "gateway \<Rightarrow> client_id \<Rightarrow> queue_name \<Rightarrow> gateway" where
  "unsubscribeFromQueue g client queueName =
     (case map_of (clientSubscriptions g) client of
        None \<Rightarrow> g
      | Some subscriptions \<Rightarrow>
          if queueName \<notin> set subscriptions then g
          else
            let g1 = g\<lparr>clientSubscriptions :=
                        AList.update client (set_delete subscriptions queueName)
                          (clientSubscriptions g)\<rparr>;
                hasOtherSubscribers =
                  list_ex (\<lambda>queues. queueName \<in> set queues) (map snd (clientSubscriptions g1))
            in if \<not> hasOtherSubscribers then
                 g1\<lparr>facadeCalls := facadeCalls g1 @ [FUnsubscribe queueName],
                    pendingUnsubscribes := pendingUnsubscribes g1 @ [queueName]\<rparr>
               else g1)"

definition unsubscribeSettled :: "gateway \<Rightarrow> queue_name \<Rightarrow> outcome \<Rightarrow> gateway" where
  "unsubscribeSettled g queueName settled =
     (let g1 = g\<lparr>pendingUnsubscribes := remove1 queueName (pendingUnsubscribes g)\<rparr>
      in case settled of
           Resolves \<Rightarrow> g1\<lparr>queueHandlers := AList.delete queueName (queueHandlers g1)\<rparr>
         | Rejects e \<Rightarrow> g1)"

text \<open>Every facade \<open>unsubscribe\<close> promise in flight resolves, in the order of the calls.\<close>

definition settle_all :: "gateway \<Rightarrow> gateway" where
  "settle_all g =
     fold (\<lambda>queueName g'. unsubscribeSettled g' queueName Resolves) (pendingUnsubscribes g) g"

definition handleUnsubscribe :: "gateway \<Rightarrow> client_id \<Rightarrow> queue_name \<Rightarrow> gateway" where
  "handleUnsubscribe g client queueName =
     emit (unsubscribeFromQueue g client queueName) client ''queue:unsubscribed''
       (Notice queueName ''Successfully unsubscribed from queue'')"

text \<open>
  \<open>handleDisconnect\<close> iterates over the client's own interest-set while
  \<open>unsubscribeFromQueue\<close> deletes from it. A JavaScript \<^verbatim>\<open>Set\<close> iterator visits the
  elements in insertion order and is not disturbed by the deletion of the element it is
  visiting, so the loop visits the elements the set had when the loop began.
\<close>

definition handleDisconnect :: "gateway \<Rightarrow> client_id \<Rightarrow> gateway" where
  "handleDisconnect g client =
     (case map_of (clientSubscriptions g) client of
        None \<Rightarrow> g
      | Some subscriptions \<Rightarrow>
          let g1 = fold (\<lambda>queueName g'. unsubscribeFromQueue g' client queueName) subscriptions g
          in g1\<lparr>clientSubscriptions := AList.delete client (clientSubscriptions g1)\<rparr>)"

definition handlePublish ::
  "gateway \<Rightarrow> client_id \<Rightarrow> queue_name \<Rightarrow> queue_message \<Rightarrow> outcome \<Rightarrow> completion \<times> gateway" where
  "handlePublish g client queueName message facade =
     (let g1 = g\<lparr>facadeCalls := facadeCalls g @ [FPublish queueName message]\<rparr>
      in case facade of
           Rejects e \<Rightarrow> (Threw e, g1)
         | Resolves \<Rightarrow> (Returned, emit g1 client ''queue:published''
                                     (Notice queueName ''Message published successfully'')))"

text \<open>
  The invariants of the registry. \<open>wf_gateway\<close> says that \<open>clientSubscriptions\<close> is a
  map (no connection twice) and \<open>interests_distinct\<close> that every interest-set is a set
  (no queue name twice), which every \<^verbatim>\<open>Map\<close> and \<^verbatim>\<open>Set\<close> satisfies.
  \<open>registry_consistent\<close> is the spec's invariant: the keys of the handler map are exactly
  the queue names held by some interest-set.
\<close>

definition wf_gateway :: "gateway \<Rightarrow> bool" where
  "wf_gateway g \<longleftrightarrow> distinct (map fst (clientSubscriptions g))"

definition interests_distinct :: "gateway \<Rightarrow> bool" where
  "interests_distinct g \<longleftrightarrow> list_all (\<lambda>(c, queues). distinct queues) (clientSubscriptions g)"

definition registry_consistent :: "gateway \<Rightarrow> bool" where
  "registry_consistent g \<longleftrightarrow>
     set (map fst (queueHandlers g)) = set (concat (map snd (clientSubscriptions g)))"

text \<open>The connections other than \<open>client\<close> whose interest-set holds the queue.\<close>

definition others :: "gateway \<Rightarrow> client_id \<Rightarrow> queue_name \<Rightarrow> client_id list" where
  "others g client queueName = removeAll client (clients g queueName)"

text \<open>What the fan-out handler emits: one \<^verbatim>\<open>queue:message\<close> event per socket.\<close>

definition message_event :: "queue_name \<Rightarrow> queue_message \<Rightarrow> client_id \<Rightarrow> emission" where
  "message_event queueName message clientId =
     (clientId, ''queue:message'', Delivery queueName message)"

text \<open>The part of the fan-out list the loop gets through: up to the first throwing emit.\<close>

definition reached :: "gateway \<Rightarrow> client_id list \<Rightarrow> client_id list" where
  "reached g cs = takeWhile (\<lambda>c. map_of (server_sockets g) c \<noteq> Some EmitThrows) cs"

text \<open>The connections one invocation of the handler of a queue emits to, in order.\<close>

definition recipients :: "gateway \<Rightarrow> queue_name \<Rightarrow> client_id list" where
  "recipients g queueName =
     filter (\<lambda>c. map_of (server_sockets g) c = Some EmitOk) (reached g (clients g queueName))"

section \<open>The polling adapter: \<^verbatim>\<open>SqsProvider\<close>\<close>

text \<open>
  A message as the backend returns it in a \<^verbatim>\<open>ReceiveMessageCommandOutput\<close>: every field
  is optional; an attribute value may lack a \<open>StringValue\<close> (\<open>None\<close> stands for a missing
  attribute object and for one whose \<open>StringValue\<close> is not a string).
\<close>

record sqs_message =
  MessageId :: "string option"
  Body :: "string option"
  ReceiptHandle :: "string option"
  MessageAttributes :: "(string \<times> string option) list option"

type_synonym handler_id = nat
type_synonym timer_id = nat
type_synonym cycle_id = nat

text \<open>
  What a \<open>pollMessages\<close> closure captures: \<open>options.queueName\<close>, \<open>queueUrl\<close> and
  \<open>options.handler\<close>. A handler is known to an adapter by its identity only; how an
  invocation of it settles is an event of the environment.
\<close>

record poll_closure =
  pc_queueName :: queue_name
  pc_queueUrl :: string
  pc_handler :: handler_id

text \<open>Where a poll cycle is suspended, with the messages of the batch still to be processed.\<close>

datatype cycle_state =
    AwaitReceive
  | AwaitHandler sqs_message "sqs_message list"
  | AwaitDelete "sqs_message list"

datatype sqs_action =
    ReceiveSent string
  | HandlerInvoked queue_name handler_id queue_message
  | DeleteSent string string

text \<open>
  The adapter's fields \<open>pollingIntervals\<close> and \<open>subscribedQueues\<close>, the runtime's
  active intervals (what \<^verbatim>\<open>setInterval\<close> created and \<^verbatim>\<open>clearInterval\<close> has not
  cleared), the poll cycles suspended at an \<^verbatim>\<open>await\<close>, and the actions of the adapter
  in order. The cache \<open>queueUrls\<close> is left out: \<open>getQueueUrl\<close> is an awaited result.
\<close>

record sqs =
  pollingIntervals :: "(queue_name \<times> timer_id) list"
  subscribedQueues :: "queue_name list"
  timers :: "(timer_id \<times> poll_closure) list"
  next_timer :: timer_id
  cycles :: "(cycle_id \<times> poll_closure \<times> cycle_state) list"
  next_cycle :: cycle_id
  actions :: "sqs_action list"

definition new_sqs :: sqs where
  "new_sqs = \<lparr>pollingIntervals = [], subscribedQueues = [], timers = [], next_timer = 0,
              cycles = [], next_cycle = 0, actions = []\<rparr>"

definition setInterval :: "sqs \<Rightarrow> poll_closure \<Rightarrow> timer_id \<times> sqs" where
  "setInterval s c =
     (next_timer s, s\<lparr>timers := timers s @ [(next_timer s, c)], next_timer := Suc (next_timer s)\<rparr>)"

definition clearInterval :: "sqs \<Rightarrow> timer_id \<Rightarrow> sqs" where
  "clearInterval s t = s\<lparr>timers := AList.delete t (timers s)\<rparr>"

text \<open>
  The translation of a backend message into a \<open>QueueMessage\<close>. The loop over
  \<^verbatim>\<open>Object.entries(message.MessageAttributes)\<close> assigns the \<open>StringValue\<close> of every
  attribute that has one.
\<close>

definition sqs_attributes :: "sqs_message \<Rightarrow> (string \<times> string) list" where
  "sqs_attributes message =
     (case MessageAttributes message of
        None \<Rightarrow> []
      | Some entries \<Rightarrow>
          fold (\<lambda>(key, attr) attrs.
                  case attr of None \<Rightarrow> attrs | Some v \<Rightarrow> assign attrs key v)
               entries [])"

definition sqs_queueMessage :: "sqs_message \<Rightarrow> queue_message" where
  "sqs_queueMessage message =
     \<lparr>id_opt = MessageId message,
      body = (case Body message of None \<Rightarrow> '''' | Some b \<Rightarrow> b),
      attributes = (if length (sqs_attributes message) > 0
                    then Some (sqs_attributes message) else None)\<rparr>"

text \<open>
  A poll cycle, segment by segment. \<open>pollMessages\<close> is the first segment, up to the
  \<^verbatim>\<open>await\<close> of the receive command. \<open>process\<close> is the body of the \<^verbatim>\<open>for\<close> loop up to the
  \<^verbatim>\<open>await\<close> of the handler: the \<^verbatim>\<open>return\<close> under the liveness check ends the cycle.
\<close>

definition pollMessages :: "sqs \<Rightarrow> poll_closure \<Rightarrow> sqs" where
  "pollMessages s c =
     (if pc_queueName c \<notin> set (subscribedQueues s) then s
      else s\<lparr>actions := actions s @ [ReceiveSent (pc_queueUrl c)],
             cycles := cycles s @ [(next_cycle s, c, AwaitReceive)],
             next_cycle := Suc (next_cycle s)\<rparr>)"

definition end_cycle :: "sqs \<Rightarrow> cycle_id \<Rightarrow> sqs" where
  "end_cycle s cid = s\<lparr>cycles := AList.delete cid (cycles s)\<rparr>"

definition process :: "sqs \<Rightarrow> cycle_id \<Rightarrow> poll_closure \<Rightarrow> sqs_message list \<Rightarrow> sqs" where
  "process s cid c messages =
     (case messages of
        [] \<Rightarrow> end_cycle s cid
      | message # rest \<Rightarrow>
          let queueMessage = sqs_queueMessage message in
          if pc_queueName c \<notin> set (subscribedQueues s) then end_cycle s cid
          else s\<lparr>actions := actions s @ [HandlerInvoked (pc_queueName c) (pc_handler c) queueMessage],
                 cycles := AList.update cid (c, AwaitHandler message rest) (cycles s)\<rparr>)"

definition receiveSettled ::
  "sqs \<Rightarrow> cycle_id \<Rightarrow> queue_error + sqs_message list option \<Rightarrow> sqs" where
  "receiveSettled s cid response =
     (case map_of (cycles s) cid of
        Some (c, AwaitReceive) \<Rightarrow>
          (case response of
             Inl e \<Rightarrow> end_cycle s cid
           | Inr Messages \<Rightarrow>
               if pc_queueName c \<notin> set (subscribedQueues s) then end_cycle s cid
               else (case Messages of
                       None \<Rightarrow> end_cycle s cid
                     | Some ms \<Rightarrow> process s cid c ms))
      | _ \<Rightarrow> s)"

definition handlerSettled :: "sqs \<Rightarrow> cycle_id \<Rightarrow> outcome \<Rightarrow> sqs" where
  "handlerSettled s cid settled =
     (case map_of (cycles s) cid of
        Some (c, AwaitHandler message rest) \<Rightarrow>
          (case settled of
             Rejects e \<Rightarrow> process s cid c rest
           | Resolves \<Rightarrow>
               (case ReceiptHandle message of
                  None \<Rightarrow> process s cid c rest
                | Some receipt \<Rightarrow>
                    if receipt = '''' then process s cid c rest
                    else s\<lparr>actions := actions s @ [DeleteSent (pc_queueUrl c) receipt],
                           cycles := AList.update cid (c, AwaitDelete rest) (cycles s)\<rparr>))
      | _ \<Rightarrow> s)"

definition deleteSettled :: "sqs \<Rightarrow> cycle_id \<Rightarrow> outcome \<Rightarrow> sqs" where
  "deleteSettled s cid settled =
     (case map_of (cycles s) cid of
        Some (c, AwaitDelete rest) \<Rightarrow> process s cid c rest
      | _ \<Rightarrow> s)"

text \<open>
  \<open>subscribe\<close>, from the point where \<^verbatim>\<open>await this.getQueueUrl\<close> has settled (nothing is
  changed before it); the rest of the function is synchronous. A rejection is rethrown
  when it is one of the adapter's own errors, becomes a \<open>QueueNotFoundError\<close> when the
  backend reports that the queue does not exist, and is wrapped otherwise.
\<close>

definition subscribe_error :: "queue_name \<Rightarrow> queue_error \<Rightarrow> queue_error" where
  "subscribe_error queueName e =
     (case e of
        QueueNotFoundError q \<Rightarrow> e
      | QueueCreationError q \<Rightarrow> e
      | QueueSubscribeError q \<Rightarrow> e
      | NonExistentQueue \<Rightarrow> QueueNotFoundError queueName
      | _ \<Rightarrow> QueueSubscribeError queueName)"

text \<open>The block of \<open>subscribe\<close> under the comment \<^verbatim>\<open>Stop existing subscription if any\<close>.\<close>

definition stopExisting :: "sqs \<Rightarrow> queue_name \<Rightarrow> sqs" where
  "stopExisting s queueName =
     (if queueName \<in> fst ` set (pollingIntervals s) then
        let s' = s\<lparr>subscribedQueues := set_delete (subscribedQueues s) queueName\<rparr>
        in case map_of (pollingIntervals s') queueName of
             None \<Rightarrow> s'
           | Some existingInterval \<Rightarrow>
               (clearInterval s' existingInterval)
                 \<lparr>pollingIntervals := AList.delete queueName (pollingIntervals s')\<rparr>
      else s)"

definition sqs_subscribe ::
  "sqs \<Rightarrow> queue_name \<Rightarrow> handler_id \<Rightarrow> queue_error + string \<Rightarrow> completion \<times> sqs" where
  "sqs_subscribe s queueName handler url =
     (case url of
        Inl e \<Rightarrow> (Threw (subscribe_error queueName e), s)
      | Inr queueUrl \<Rightarrow>
          let s1 = stopExisting s queueName;
              c = \<lparr>pc_queueName = queueName, pc_queueUrl = queueUrl, pc_handler = handler\<rparr>;
              s2 = s1\<lparr>subscribedQueues := set_add (subscribedQueues s1) queueName\<rparr>;
              s3 = pollMessages s2 c;
              (interval, s4) = setInterval s3 c
          in (Returned, s4\<lparr>pollingIntervals := AList.update queueName interval (pollingIntervals s4)\<rparr>))"

definition sqs_unsubscribe :: "sqs \<Rightarrow> queue_name \<Rightarrow> completion \<times> sqs" where
  "sqs_unsubscribe s queueName =
     (let s1 = s\<lparr>subscribedQueues := set_delete (subscribedQueues s) queueName\<rparr>
      in case map_of (pollingIntervals s1) queueName of
           None \<Rightarrow> (Returned, s1)
         | Some interval \<Rightarrow>
             (Returned, (clearInterval s1 interval)
                          \<lparr>pollingIntervals := AList.delete queueName (pollingIntervals s1)\<rparr>))"

definition sqs_onModuleDestroy :: "sqs \<Rightarrow> sqs" where
  "sqs_onModuleDestroy s =
     (fold (\<lambda>interval s'. clearInterval s' interval) (map snd (pollingIntervals s)) s)
       \<lparr>pollingIntervals := [], subscribedQueues := []\<rparr>"

text \<open>
  The turns of the event loop that concern the adapter: a call of its interface, an
  interval firing (a cleared interval never fires), and the settling of an awaited
  promise of a suspended poll cycle.
\<close>

datatype sqs_event =
    Subscribe queue_name handler_id "queue_error + string"
  | Unsubscribe queue_name
  | ModuleDestroy
  | TimerFires timer_id
  | ReceiveSettled cycle_id "queue_error + sqs_message list option"
  | HandlerSettled cycle_id outcome
  | DeleteSettled cycle_id outcome

fun sqs_step :: "sqs \<Rightarrow> sqs_event \<Rightarrow> sqs" where
  "sqs_step s (Subscribe queueName handler url) = snd (sqs_subscribe s queueName handler url)"
| "sqs_step s (Unsubscribe queueName) = snd (sqs_unsubscribe s queueName)"
| "sqs_step s ModuleDestroy = sqs_onModuleDestroy s"
| "sqs_step s (TimerFires t) =
     (case map_of (timers s) t of None \<Rightarrow> s | Some c \<Rightarrow> pollMessages s c)"
| "sqs_step s (ReceiveSettled cid response) = receiveSettled s cid response"
| "sqs_step s (HandlerSettled cid settled) = handlerSettled s cid settled"
| "sqs_step s (DeleteSettled cid settled) = deleteSettled s cid settled"

definition sqs_run :: "sqs \<Rightarrow> sqs_event list \<Rightarrow> sqs" where
  "sqs_run s events = foldl sqs_step s events"

text \<open>The handler invocations for a queue among the actions.\<close>

definition invocations :: "queue_name \<Rightarrow> sqs_action list \<Rightarrow> sqs_action list" where
  "invocations queueName as =
     filter (\<lambda>a. case a of HandlerInvoked q h m \<Rightarrow> q = queueName | _ \<Rightarrow> False) as"

definition is_subscribe :: "queue_name \<Rightarrow> sqs_event \<Rightarrow> bool" where
  "is_subscribe queueName e = (case e of Subscribe q h u \<Rightarrow> q = queueName | _ \<Rightarrow> False)"

text \<open>The delete commands among the actions.\<close>

definition deletes :: "sqs_action list \<Rightarrow> sqs_action list" where
  "deletes as = filter (\<lambda>a. case a of DeleteSent u r \<Rightarrow> True | _ \<Rightarrow> False) as"

text \<open>
  What the loop does next with the rest of a batch: it hands the first remaining message
  to the handler when the queue is still in the live-set, and nothing otherwise.
\<close>

definition next_invocation :: "sqs \<Rightarrow> poll_closure \<Rightarrow> sqs_message list \<Rightarrow> sqs_action list" where
  "next_invocation s c rest =
     (case rest of
        [] \<Rightarrow> []
      | message # rest' \<Rightarrow>
          if pc_queueName c \<in> set (subscribedQueues s)
          then [HandlerInvoked (pc_queueName c) (pc_handler c) (sqs_queueMessage message)]
          else [])"

text \<open>The active repeating schedules that poll a queue.\<close>

definition schedules :: "sqs \<Rightarrow> queue_name \<Rightarrow> timer_id list" where
  "schedules s queueName = map fst (filter (\<lambda>(t, c). pc_queueName c = queueName) (timers s))"

section \<open>The event-driven adapter: \<^verbatim>\<open>RabbitMqProvider\<close>\<close>

text \<open>
  A header value of a delivery, by its \<^verbatim>\<open>typeof\<close>. The numbers are of a type
  \<open>'n\<close>, and JavaScript's \<^verbatim>\<open>String\<close> on a number is a parameter \<open>str\<close> of the
  translation; \<open>HOther\<close> is a value of any other type.
\<close>

datatype 'n header_value = HString string | HNumber 'n | HBoolean bool | HOther

text \<open>
  A delivery: \<open>content\<close> is what \<^verbatim>\<open>msg.content.toString()\<close> returns, \<open>messageId\<close> is
  \<open>Some\<close> when \<^verbatim>\<open>msg.properties.messageId\<close> is a string, \<open>headers\<close> is \<open>Some\<close> when
  \<^verbatim>\<open>msg.properties.headers\<close> is an object.
\<close>

record 'n amqp_message =
  content :: string
  messageId :: "string option"
  headers :: "(string \<times> 'n header_value) list option"
  deliveryTag :: nat

type_synonym consumer_tag = nat

datatype channel_op =
    AssertQueue queue_name
  | Consume queue_name
  | Cancel consumer_tag
  | Ack nat
  | Nack nat bool bool

datatype rabbit_action =
    ChannelOp channel_op
  | RabbitHandlerInvoked handler_id queue_message

definition String_boolean :: "bool \<Rightarrow> string" where
  "String_boolean b = (if b then ''true'' else ''false'')"

text \<open>
  The string a header value is stored as, if it is stored: the two branches of the loop
  over \<^verbatim>\<open>Object.entries(headers)\<close>.
\<close>

definition rabbit_attribute :: "('n \<Rightarrow> string) \<Rightarrow> 'n header_value \<Rightarrow> string option" where
  "rabbit_attribute str header =
     (case header of
        HString v \<Rightarrow> Some v
      | HNumber n \<Rightarrow> Some (str n)
      | HBoolean b \<Rightarrow> Some (String_boolean b)
      | HOther \<Rightarrow> None)"

definition rabbit_attributes :: "('n \<Rightarrow> string) \<Rightarrow> 'n amqp_message \<Rightarrow> (string \<times> string) list" where
  "rabbit_attributes str msg =
     (case headers msg of
        None \<Rightarrow> []
      | Some entries \<Rightarrow>
          fold (\<lambda>(key, header) attrs.
                  case rabbit_attribute str header of
                    None \<Rightarrow> attrs
                  | Some v \<Rightarrow> assign attrs key v)
               entries [])"

definition rabbit_queueMessage :: "('n \<Rightarrow> string) \<Rightarrow> 'n amqp_message \<Rightarrow> queue_message" where
  "rabbit_queueMessage str msg =
     \<lparr>id_opt = messageId msg,
      body = content msg,
      attributes = (if length (rabbit_attributes str msg) > 0
                    then Some (rabbit_attributes str msg) else None)\<rparr>"

text \<open>
  The callback given to \<^verbatim>\<open>channel.consume\<close>, with the asynchronous function it starts
  run to its end: a null delivery is ignored; otherwise the handler is invoked on the
  translated message; then \<open>ack\<close>, or, when anything in the \<^verbatim>\<open>try\<close> block threw (the
  handler, or \<open>ack\<close> itself), \<open>nack\<close> with \<open>allUpTo = false\<close> and \<open>requeue = true\<close>.
  \<open>settled\<close> is how the handler's promise settles, \<open>ack_throws\<close> whether
  \<^verbatim>\<open>channel.ack\<close> throws.
\<close>

definition consumeCallback ::
  "('n \<Rightarrow> string) \<Rightarrow> handler_id \<Rightarrow> 'n amqp_message option \<Rightarrow> outcome \<Rightarrow> bool \<Rightarrow> rabbit_action list" where
  "consumeCallback str handler delivery settled ack_throws =
     (case delivery of
        None \<Rightarrow> []
      | Some msg \<Rightarrow>
          RabbitHandlerInvoked handler (rabbit_queueMessage str msg) #
          (case settled of
             Rejects e \<Rightarrow> [ChannelOp (Nack (deliveryTag msg) False True)]
           | Resolves \<Rightarrow>
               ChannelOp (Ack (deliveryTag msg)) #
               (if ack_throws then [ChannelOp (Nack (deliveryTag msg) False True)] else [])))"

text \<open>
  A call of the adapter that has not returned yet, by the \<^verbatim>\<open>await\<close> at which it is
  suspended. \<open>subscribe\<close> has four: \<open>connect\<close> (inside \<open>ensureChannel\<close>, when there is no
  channel), \<open>assertQueue\<close>, \<open>cancel\<close> (inside the \<open>unsubscribe\<close> it calls for a queue that
  has a consumer) and \<open>consume\<close>; it carries \<open>options.queueName\<close> and \<open>options.handler\<close>.
  \<open>unsubscribe\<close> has one, \<open>cancel\<close>. The two awaits inside \<open>connect\<close> count as one. An
  \<^verbatim>\<open>await\<close> of a promise that is already resolved (\<open>ensureChannel\<close> with a channel,
  \<open>unsubscribe\<close> with nothing to cancel), and the step from the return of an inner
  function to its caller, are not suspensions of the model: the call neither reads nor
  writes the adapter's fields between there and its next call on the channel.
\<close>

type_synonym call_id = nat

datatype suspended =
    InConnect queue_name handler_id
  | InAssertQueue queue_name handler_id
  | InCancel queue_name handler_id consumer_tag
  | InConsume queue_name handler_id
  | InUnsubscribe queue_name consumer_tag

text \<open>
  The adapter's fields \<open>channel\<close> (is it defined) and \<open>consumers\<close>, the consumers
  registered on the broker's side of the channel, the channel operations in order, and
  the suspended calls. The broker chooses the tag of a new consumer; \<open>next_tag\<close> makes it
  a fresh one. The adapter has one channel.
\<close>

record rabbit =
  channel :: bool
  consumers :: "(queue_name \<times> consumer_tag) list"
  broker_consumers :: "(consumer_tag \<times> queue_name \<times> handler_id) list"
  next_tag :: consumer_tag
  channel_ops :: "channel_op list"
  pending :: "(call_id \<times> suspended) list"
  next_call :: call_id

definition new_rabbit :: rabbit where
  "new_rabbit = \<lparr>channel = False, consumers = [], broker_consumers = [], next_tag = 0,
                 channel_ops = [], pending = [], next_call = 0\<rparr>"

definition send :: "rabbit \<Rightarrow> channel_op \<Rightarrow> rabbit" where
  "send r op = r\<lparr>channel_ops := channel_ops r @ [op]\<rparr>"

definition suspend :: "rabbit \<Rightarrow> call_id \<Rightarrow> suspended \<Rightarrow> rabbit" where
  "suspend r cid point = r\<lparr>pending := AList.update cid point (pending r)\<rparr>"

definition finish :: "rabbit \<Rightarrow> call_id \<Rightarrow> rabbit" where
  "finish r cid = r\<lparr>pending := AList.delete cid (pending r)\<rparr>"

text \<open>
  The body of \<open>unsubscribe\<close> up to its \<^verbatim>\<open>await\<close>, run by the call \<open>cid\<close>: \<open>Some\<close> state in
  which the call is suspended at \<^verbatim>\<open>channel.cancel\<close>, or \<open>None\<close> when the guard
  \<^verbatim>\<open>consumer && this.channel\<close> fails and the body returns at once. \<open>point\<close> says whose
  \<open>unsubscribe\<close> it is. \<open>cancelled\<close> is what follows the \<^verbatim>\<open>await\<close>: the broker has
  removed the consumer, and \<^verbatim>\<open>this.consumers.delete(queueName)\<close>.
\<close>

definition cancelConsumer ::
  "rabbit \<Rightarrow> call_id \<Rightarrow> queue_name \<Rightarrow> (consumer_tag \<Rightarrow> suspended) \<Rightarrow> rabbit option" where
  "cancelConsumer r cid queueName point =
     (case map_of (consumers r) queueName of
        None \<Rightarrow> None
      | Some consumerTag \<Rightarrow>
          if channel r then Some (suspend (send r (Cancel consumerTag)) cid (point consumerTag))
          else None)"

definition cancelled :: "rabbit \<Rightarrow> queue_name \<Rightarrow> consumer_tag \<Rightarrow> rabbit" where
  "cancelled r queueName consumerTag =
     r\<lparr>broker_consumers := AList.delete consumerTag (broker_consumers r),
       consumers := AList.delete queueName (consumers r)\<rparr>"

text \<open>
  \<open>unsubscribe\<close>, up to its first \<^verbatim>\<open>await\<close>: it has returned (\<open>Inl\<close>), or it is suspended
  (\<open>Inr\<close>, with the identity of the call).
\<close>

definition rabbit_unsubscribe :: "rabbit \<Rightarrow> queue_name \<Rightarrow> (completion + call_id) \<times> rabbit" where
  "rabbit_unsubscribe r queueName =
     (case cancelConsumer (r\<lparr>next_call := Suc (next_call r)\<rparr>) (next_call r) queueName
             (InUnsubscribe queueName) of
        None \<Rightarrow> (Inl Returned, r)
      | Some r' \<Rightarrow> (Inr (next_call r), r'))"

text \<open>\<open>subscribe\<close>, up to its first \<^verbatim>\<open>await\<close>, and the two later calls on the channel.\<close>

definition sendAssertQueue :: "rabbit \<Rightarrow> call_id \<Rightarrow> queue_name \<Rightarrow> handler_id \<Rightarrow> rabbit" where
  "sendAssertQueue r cid queueName handler =
     suspend (send r (AssertQueue queueName)) cid (InAssertQueue queueName handler)"

definition sendConsume :: "rabbit \<Rightarrow> call_id \<Rightarrow> queue_name \<Rightarrow> handler_id \<Rightarrow> rabbit" where
  "sendConsume r cid queueName handler =
     suspend (send r (Consume queueName)) cid (InConsume queueName handler)"

definition rabbit_subscribe :: "rabbit \<Rightarrow> queue_name \<Rightarrow> handler_id \<Rightarrow> call_id \<times> rabbit" where
  "rabbit_subscribe r queueName handler =
     (let cid = next_call r;
          r1 = r\<lparr>next_call := Suc cid\<rparr>
      in (cid, if \<not> channel r1 then suspend r1 cid (InConnect queueName handler)
               else sendAssertQueue r1 cid queueName handler))"

text \<open>
  The call \<open>cid\<close> goes on when the promise it awaits settles. A rejection is caught,
  logged and thrown again: the call ends. Otherwise the call runs to its next \<^verbatim>\<open>await\<close>
  (\<open>None\<close>) or to its return (\<open>Some Returned\<close>). After \<open>assertQueue\<close> comes the check
  \<^verbatim>\<open>this.consumers.has(queueName)\<close>; \<^verbatim>\<open>this.consumers.set\<close> comes after \<open>consume\<close> only.
\<close>

definition rabbit_resume :: "rabbit \<Rightarrow> call_id \<Rightarrow> outcome \<Rightarrow> completion option \<times> rabbit" where
  "rabbit_resume r cid settled =
     (case map_of (pending r) cid of
        None \<Rightarrow> (None, r)
      | Some point \<Rightarrow>
          (case settled of
             Rejects e \<Rightarrow> (Some (Threw e), finish r cid)
           | Resolves \<Rightarrow>
               (case point of
                  InConnect queueName handler \<Rightarrow>
                    (None, sendAssertQueue (r\<lparr>channel := True\<rparr>) cid queueName handler)
                | InAssertQueue queueName handler \<Rightarrow>
                    (None,
                     if queueName \<in> fst ` set (consumers r) then
                       (case cancelConsumer r cid queueName (InCancel queueName handler) of
                          None \<Rightarrow> sendConsume r cid queueName handler
                        | Some r' \<Rightarrow> r')
                     else sendConsume r cid queueName handler)
                | InCancel queueName handler consumerTag \<Rightarrow>
                    (None, sendConsume (cancelled r queueName consumerTag) cid queueName handler)
                | InConsume queueName handler \<Rightarrow>
                    (Some Returned,
                     finish (r\<lparr>broker_consumers :=
                                  broker_consumers r @ [(next_tag r, queueName, handler)],
                               next_tag := Suc (next_tag r),
                               consumers := AList.update queueName (next_tag r) (consumers r)\<rparr>)
                            cid)
                | InUnsubscribe queueName consumerTag \<Rightarrow>
                    (Some Returned, finish (cancelled r queueName consumerTag) cid))))"

text \<open>
  What happens to the adapter: a call begins, or an awaited promise settles. The calls
  may overlap: a call begins while others are suspended.
\<close>

datatype rabbit_event =
    SubscribeCalled queue_name handler_id
  | UnsubscribeCalled queue_name
  | BrokerSettled call_id outcome

fun rabbit_step :: "rabbit \<Rightarrow> rabbit_event \<Rightarrow> rabbit" where
  "rabbit_step r (SubscribeCalled queueName handler) = snd (rabbit_subscribe r queueName handler)"
| "rabbit_step r (UnsubscribeCalled queueName) = snd (rabbit_unsubscribe r queueName)"
| "rabbit_step r (BrokerSettled cid settled) = snd (rabbit_resume r cid settled)"

definition rabbit_run :: "rabbit \<Rightarrow> rabbit_event list \<Rightarrow> rabbit" where
  "rabbit_run r events = foldl rabbit_step r events"



text \<open>
  A call that runs from its first statement to its return or throw with no other call in
  between: \<open>b\<close> says how each of its awaited calls on the broker settles, and
  \<open>to_completion\<close> resumes the call until it ends, at most \<open>n\<close> times. Four times are
  enough for any call, as is proved below.
\<close>

record broker =
  connect :: outcome
  assertQueue :: outcome
  cancel :: outcome
  consume :: outcome

definition answer :: "broker \<Rightarrow> suspended \<Rightarrow> outcome" where
  "answer b point =
     (case point of
        InConnect queueName handler \<Rightarrow> connect b
      | InAssertQueue queueName handler \<Rightarrow> assertQueue b
      | InCancel queueName handler consumerTag \<Rightarrow> cancel b
      | InConsume queueName handler \<Rightarrow> consume b
      | InUnsubscribe queueName consumerTag \<Rightarrow> cancel b)"

fun to_completion :: "nat \<Rightarrow> broker \<Rightarrow> rabbit \<Rightarrow> call_id \<Rightarrow> completion option \<times> rabbit" where
  "to_completion 0 b r cid = (None, r)"
| "to_completion (Suc n) b r cid =
     (case map_of (pending r) cid of
        None \<Rightarrow> (None, r)
      | Some point \<Rightarrow>
          (case rabbit_resume r cid (answer b point) of
             (Some c, r') \<Rightarrow> (Some c, r')
           | (None, r') \<Rightarrow> to_completion n b r' cid))"


definition unsubscribe_alone :: "rabbit \<Rightarrow> queue_name \<Rightarrow> broker \<Rightarrow> completion option \<times> rabbit" where
  "unsubscribe_alone r queueName b =
     (case rabbit_unsubscribe r queueName of
        (Inl c, r1) \<Rightarrow> (Some c, r1)
      | (Inr cid, r1) \<Rightarrow> to_completion (Suc (Suc (Suc (Suc 0)))) b r1 cid)"


section \<open>Invariants of the adapters\<close>

text \<open>
  Every active interval is the one \<open>pollingIntervals\<close> records for the queue it polls,
  and the identity of the next interval is a new one.
\<close>

definition sqs_inv :: "sqs \<Rightarrow> bool" where
  "sqs_inv s \<longleftrightarrow>
     distinct (map fst (pollingIntervals s)) \<and> distinct (map fst (timers s)) \<and>
     (\<forall>(t, c) \<in> set (timers s).
        t < next_timer s \<and> map_of (pollingIntervals s) (pc_queueName c) = Some t) \<and>
     (\<forall>(q, t) \<in> set (pollingIntervals s). t < next_timer s)"

text \<open>
  Every consumer registered on the channel is the one \<open>consumers\<close> records for its
  queue, and the tag of the next consumer is a new one.
\<close>

definition rabbit_inv :: "rabbit \<Rightarrow> bool" where
  "rabbit_inv r \<longleftrightarrow>
     distinct (map fst (consumers r)) \<and> distinct (map fst (broker_consumers r)) \<and>
     (\<forall>(t, q, h) \<in> set (broker_consumers r).
        t < next_tag r \<and> map_of (consumers r) q = Some t) \<and>
     (\<forall>(q, t) \<in> set (consumers r). t < next_tag r)"

text \<open>
  What a suspended call has read of the adapter's fields is still so: the channel it
  has obtained is there, the consumer it is cancelling is the one recorded for the queue,
  and a call that is registering a consumer has found none for the queue, or has deleted
  it. \<open>rabbit_alone_inv\<close> is the invariant of the runs whose calls do not overlap: at
  most one call is suspended. \<open>awaits_left\<close> bounds the number of times a suspended call
  is resumed before it ends.
\<close>

definition point_ok :: "rabbit \<Rightarrow> suspended \<Rightarrow> bool" where
  "point_ok r point =
     (case point of
        InConnect q h \<Rightarrow> True
      | InAssertQueue q h \<Rightarrow> channel r
      | InCancel q h t \<Rightarrow> map_of (consumers r) q = Some t
      | InConsume q h \<Rightarrow> q \<notin> fst ` set (consumers r)
      | InUnsubscribe q t \<Rightarrow> map_of (consumers r) q = Some t)"



section \<open>Example states\<close>

text \<open>The states and inputs at which the properties below are evaluated.\<close>

definition hello :: queue_message where
  "hello = \<lparr>id_opt = Some ''m-1'', body = ''hello'', attributes = Some [(''k'', ''v'')]\<rparr>"

text \<open>Two connections \<open>c1\<close> and \<open>c2\<close>, both subscribed to \<open>orders\<close>.\<close>

definition two_subscribers :: "(client_id \<times> socket) list \<Rightarrow> gateway" where
  "two_subscribers socks =
     snd (handleSubscribe
            (snd (handleSubscribe
                    (handleConnection (handleConnection (new_gateway socks) ''c1'') ''c2'')
                    ''c1'' ''orders'' Resolves))
            ''c2'' ''orders'' Resolves)"

text \<open>One connection whose first subscribe was rejected by the facade.\<close>

definition failed_subscribe :: gateway where
  "failed_subscribe =
     snd (handleSubscribe (handleConnection (new_gateway [(''c1'', EmitOk), (''c2'', EmitOk)]) ''c1'')
            ''c1'' ''orders'' (Rejects (QueueSubscribeError ''orders'')))"

text \<open>\<open>c1\<close> shares \<open>orders\<close> with \<open>c2\<close> and is alone on \<open>audit\<close>.\<close>

definition shared_and_own :: gateway where
  "shared_and_own =
     (new_gateway [(''c1'', EmitOk), (''c2'', EmitOk)])
       \<lparr>clientSubscriptions := [(''c1'', [''orders'', ''audit'']), (''c2'', [''orders''])],
        queueHandlers := [(''orders'', FanOut ''orders''), (''audit'', FanOut ''audit'')]\<rparr>"

text \<open>A subscribed connection for which the server's socket map has no socket.\<close>

definition unconnected_subscriber :: gateway where
  "unconnected_subscriber =
     snd (handleSubscribe (handleConnection (new_gateway []) ''c1'') ''c1'' ''orders'' Resolves)"

text \<open>Two backend messages: one complete, one without body, receipt handle and string attribute.\<close>

definition order1 :: sqs_message where
  "order1 = \<lparr>MessageId = Some ''id-1'', Body = Some ''hello'', ReceiptHandle = Some ''rh-1'',
             MessageAttributes = Some [(''k'', Some ''v''), (''bin'', None)]\<rparr>"

definition order2 :: sqs_message where
  "order2 = \<lparr>MessageId = Some ''id-2'', Body = None, ReceiptHandle = None,
             MessageAttributes = Some [(''bin'', None)]\<rparr>"

text \<open>The polling adapter after \<open>subscribe\<close>, with its first poll cycle awaiting the receive.\<close>

definition awaiting_receive :: sqs where
  "awaiting_receive = sqs_run new_sqs [Subscribe ''orders'' 1 (Inr ''url'')]"

text \<open>The same, after the receive has returned a batch: the cycle awaits the handler.\<close>

definition in_handler :: "sqs_message list \<Rightarrow> sqs" where
  "in_handler batch =
     sqs_run new_sqs [Subscribe ''orders'' 1 (Inr ''url''), ReceiveSettled 0 (Inr (Some batch))]"

text \<open>A delivery of the broker with a header of each kind; its numbers are decimal strings.\<close>

definition delivery1 :: "string amqp_message" where
  "delivery1 = \<lparr>content = ''hello'', messageId = Some ''id-1'',
                 headers = Some [(''k'', HString ''v''), (''n'', HNumber ''7''),
                                 (''b'', HBoolean True), (''o'', HOther)],
                 deliveryTag = 5\<rparr>"

text \<open>A delivery whose only header is a number under the key \<^verbatim>\<open>__proto__\<close>.\<close>

definition delivery2 :: "string amqp_message" where
  "delivery2 = \<lparr>content = ''hello'', messageId = None,
                 headers = Some [(''__proto__'', HNumber ''7'')], deliveryTag = 6\<rparr>"

text \<open>
  One \<open>subscribe\<close> on the event-driven adapter, from its call to its return: \<open>connect\<close>,
  \<open>assertQueue\<close> and \<open>consume\<close> resolve. And two that overlap: the second begins while the
  first awaits \<open>assertQueue\<close>.
\<close>

definition first_subscribe :: "rabbit_event list" where
  "first_subscribe =
     [SubscribeCalled ''orders'' 1, BrokerSettled 0 Resolves, BrokerSettled 0 Resolves,
      BrokerSettled 0 Resolves]"



section \<open>Properties of the multiplexer\<close>

lemma set_update_distinct:
  "distinct (map fst al) \<Longrightarrow> map_of al k = Some old \<Longrightarrow>
   set (AList.update k v al) = insert (k, v) (set al - {(k, old)})"
proof (induction al)
  case Nil
  then show ?case by simp
next
  case (Cons a al)
  obtain k' v' where a: "a = (k', v')" by (cases a)
  show ?case
  proof (cases "k' = k")
    case True
    with Cons.prems a have "old = v'" by simp
    moreover from Cons.prems a True have "(k, v') \<notin> set al" by (auto simp: image_iff)
    ultimately show ?thesis using a True by auto
  next
    case False
    with Cons a show ?thesis by auto
  qed
qed

lemma others_nonempty_iff:
  "others g client queueName \<noteq> [] \<longleftrightarrow>
   (\<exists>(c, qs) \<in> set (clientSubscriptions g). c \<noteq> client \<and> queueName \<in> set qs)"
proof -
  have "others g client queueName \<noteq> [] \<longleftrightarrow> set (others g client queueName) \<noteq> {}"
    by simp
  also have "\<dots> \<longleftrightarrow> (\<exists>(c, qs) \<in> set (clientSubscriptions g). c \<noteq> client \<and> queueName \<in> set qs)"
    unfolding others_def clients_def by force
  finally show ?thesis .
qed

lemma hasOtherSubscribers_iff:
  assumes "distinct (map fst cs)" and "map_of cs client = Some subs"
  shows "list_ex (\<lambda>queues. q \<in> set queues) (map snd (AList.update client (set_delete subs q) cs))
         \<longleftrightarrow> (\<exists>(c, qs) \<in> set cs. c \<noteq> client \<and> q \<in> set qs)"
    (is "?L \<longleftrightarrow> ?R")
proof
  let ?U = "AList.update client (set_delete subs q) cs"
  have S: "set ?U = insert (client, set_delete subs q) (set cs - {(client, subs)})"
    by (rule set_update_distinct [OF assms])
  have L: "?L \<longleftrightarrow> (\<exists>x \<in> set ?U. q \<in> set (snd x))"
    by (simp add: list_ex_iff)
  {
    assume ?L
    with L obtain x where x: "x \<in> set ?U" and q: "q \<in> set (snd x)" by blast
    obtain c qs where cq: "x = (c, qs)" by (cases x)
    have "q \<notin> set (set_delete subs q)" by (simp add: set_delete_def)
    with x q cq S have in_cs: "(c, qs) \<in> set cs" and ne: "(c, qs) \<noteq> (client, subs)"
      by auto
    have "c \<noteq> client"
    proof
      assume "c = client"
      with in_cs assms have "qs = subs" by (metis map_of_is_SomeI option.inject)
      with \<open>c = client\<close> ne show False by simp
    qed
    with in_cs q cq show ?R by auto
  }
  {
    assume ?R
    then obtain c qs where "(c, qs) \<in> set cs" "c \<noteq> client" "q \<in> set qs" by auto
    then have "(c, qs) \<in> set ?U" "q \<in> set (snd (c, qs))" unfolding S by simp_all
    then show ?L unfolding L by blast
  }
qed

lemma unsubscribeFromQueue_member:
  assumes "wf_gateway g" and "map_of (clientSubscriptions g) client = Some subs"
    and "q \<in> set subs"
  shows "unsubscribeFromQueue g client q =
         g\<lparr>clientSubscriptions := AList.update client (set_delete subs q) (clientSubscriptions g),
           facadeCalls := facadeCalls g @ (if others g client q = [] then [FUnsubscribe q] else []),
           pendingUnsubscribes := pendingUnsubscribes g @ (if others g client q = [] then [q] else [])\<rparr>"
proof -
  have d: "distinct (map fst (clientSubscriptions g))" using assms(1) by (simp add: wf_gateway_def)
  show ?thesis
    using assms(2,3) hasOtherSubscribers_iff [OF d assms(2), of q] others_nonempty_iff [of g client q]
    by (auto simp: unsubscribeFromQueue_def Let_def)
qed


lemma others_update_self:
  "removeAll c (map fst (filter (\<lambda>(c', qs). q \<in> set qs) (AList.update c v cs))) =
   removeAll c (map fst (filter (\<lambda>(c', qs). q \<in> set qs) cs))"
  by (induction cs) auto

lemma unsubscribe_fold:
  assumes "wf_gateway g" and "map_of (clientSubscriptions g) client = Some cur"
    and "distinct qs" and "set qs \<subseteq> set cur"
  shows "fold (\<lambda>queueName g'. unsubscribeFromQueue g' client queueName) qs g =
         g\<lparr>clientSubscriptions :=
             AList.update client (filter (\<lambda>x. x \<notin> set qs) cur) (clientSubscriptions g),
           facadeCalls := facadeCalls g @ map FUnsubscribe (filter (\<lambda>q. others g client q = []) qs),
           pendingUnsubscribes := pendingUnsubscribes g @ filter (\<lambda>q. others g client q = []) qs\<rparr>"
  using assms
proof (induction qs arbitrary: g cur)
  case Nil
  then have "filter (\<lambda>x. x \<notin> set []) cur = cur" by simp
  with Nil show ?case by (simp add: update_triv)
next
  case (Cons q qs)
  let ?g1 = "unsubscribeFromQueue g client q"
  have q: "q \<in> set cur" using Cons.prems by simp
  have g1: "?g1 = g\<lparr>clientSubscriptions :=
                      AList.update client (set_delete cur q) (clientSubscriptions g),
                    facadeCalls := facadeCalls g @ (if others g client q = [] then [FUnsubscribe q] else []),
                    pendingUnsubscribes := pendingUnsubscribes g @ (if others g client q = [] then [q] else [])\<rparr>"
    by (rule unsubscribeFromQueue_member [OF Cons.prems(1,2) q])
  have wf1: "wf_gateway ?g1"
    using Cons.prems(1) unfolding g1 by (simp add: wf_gateway_def distinct_update)
  have m1: "map_of (clientSubscriptions ?g1) client = Some (set_delete cur q)"
    unfolding g1 by (simp add: update_conv')
  have d1: "distinct qs" using Cons.prems by simp
  have s1: "set qs \<subseteq> set (set_delete cur q)" using Cons.prems by (auto simp: set_delete_def)
  have o1: "\<And>q'. others ?g1 client q' = others g client q'"
    unfolding g1 by (simp add: others_def clients_def others_update_self)
  have f1: "filter (\<lambda>x. x \<notin> set qs) (set_delete cur q) = filter (\<lambda>x. x \<notin> set (q # qs)) cur"
    by (induction cur) (auto simp: set_delete_def)
  have "fold (\<lambda>queueName g'. unsubscribeFromQueue g' client queueName) (q # qs) g =
        fold (\<lambda>queueName g'. unsubscribeFromQueue g' client queueName) qs ?g1" by simp
  also note Cons.IH [OF wf1 m1 d1 s1]
  finally show ?case
    unfolding o1 f1 unfolding g1 by simp
qed

lemma clients_set:
  assumes "wf_gateway g"
  shows "set (clients g q) = {c. \<exists>qs. map_of (clientSubscriptions g) c = Some qs \<and> q \<in> set qs}"
proof -
  have d: "distinct (map fst (clientSubscriptions g))" using assms by (simp add: wf_gateway_def)
  have "\<And>c qs. (c, qs) \<in> set (clientSubscriptions g) \<longleftrightarrow> map_of (clientSubscriptions g) c = Some qs"
    using d by simp
  then show ?thesis unfolding clients_def by force
qed

lemma clients_distinct:
  assumes "wf_gateway g"
  shows "distinct (clients g q)"
  using assms unfolding clients_def wf_gateway_def by (simp add: distinct_map_filter)

lemma wf_unsubscribeFromQueue:
  "wf_gateway g \<Longrightarrow> wf_gateway (unsubscribeFromQueue g client q)"
  by (auto simp: unsubscribeFromQueue_def wf_gateway_def Let_def distinct_update split: option.splits)

lemma deliver_sockets [simp]:
  "server_sockets (snd (deliver g q m cs)) = server_sockets g"
  by (induction cs arbitrary: g) (auto simp: emit_def split: option.splits socket.splits)


lemma deliver_eq:
  "deliver g q m cs =
     ((if reached g cs = cs then Returned else Threw (OtherError ''emit'')),
      g\<lparr>emitted := emitted g @
           map (message_event q m) (filter (\<lambda>c. map_of (server_sockets g) c = Some EmitOk) (reached g cs))\<rparr>)"
proof (induction cs arbitrary: g)
  case Nil
  show ?case by (simp add: reached_def)
next
  case (Cons c cs)
  show ?case
  proof (cases "map_of (server_sockets g) c")
    case None
    then show ?thesis using Cons [of g] by (simp add: reached_def)
  next
    case (Some s)
    show ?thesis
    proof (cases s)
      case EmitOk
      let ?g1 = "emit g c ''queue:message'' (Delivery q m)"
      have r: "reached ?g1 cs = reached g cs" by (simp add: reached_def emit_def)
      show ?thesis
        using Some EmitOk Cons [of ?g1] unfolding r
        by (simp add: reached_def emit_def message_event_def)
    next
      case EmitThrows
      with Some show ?thesis by (simp add: reached_def)
    qed
  qed
qed

lemma update_absent: "k \<notin> fst ` set al \<Longrightarrow> AList.update k v al = al @ [(k, v)]"
  by (induction al) auto

lemma interests_split:
  assumes "distinct (map fst cs)" and "map_of cs c = Some old"
  shows "set (concat (map snd cs)) = set old \<union> (\<Union>x \<in> set cs - {(c, old)}. set (snd x))"
proof -
  have "(c, old) \<in> set cs" using assms(2) by (rule map_of_SomeD)
  then show ?thesis by force
qed

lemma interests_update:
  assumes "distinct (map fst cs)" and "map_of cs c = Some old"
  shows "set (concat (map snd (AList.update c v cs))) =
         set v \<union> (\<Union>x \<in> set cs - {(c, old)}. set (snd x))"
  unfolding set_concat set_map set_update_distinct [OF assms] by auto

lemma interests_delete:
  assumes "distinct (map fst cs)" and "map_of cs c = Some old"
  shows "set (concat (map snd (AList.delete c cs))) = (\<Union>x \<in> set cs - {(c, old)}. set (snd x))"
proof -
  have "set (AList.delete c cs) = set cs - {(c, old)}"
    using assms by (auto simp: AList.delete_eq) (metis map_of_is_SomeI option.inject)
  then show ?thesis by simp
qed

lemma in_rest_iff:
  assumes "wf_gateway g" and "map_of (clientSubscriptions g) c = Some old"
  shows "q \<in> (\<Union>x \<in> set (clientSubscriptions g) - {(c, old)}. set (snd x)) \<longleftrightarrow> others g c q \<noteq> []"
proof -
  have d: "distinct (map fst (clientSubscriptions g))" using assms(1) by (simp add: wf_gateway_def)
  have k: "x \<in> set (clientSubscriptions g) \<Longrightarrow> (x \<noteq> (c, old)) = (fst x \<noteq> c)" for x
    using d assms(2) by (metis map_of_is_SomeI option.inject prod.collapse fst_conv)
  show ?thesis
    unfolding others_nonempty_iff using k by fastforce
qed

text \<open>
  The gateway starts with, and every operation keeps, a \<open>clientSubscriptions\<close> that is a
  map whose values are sets: no connection and, within an interest-set, no queue name
  occurs twice.
\<close>

lemma list_all_update:
  "list_all P al \<Longrightarrow> P (k, v) \<Longrightarrow> list_all P (AList.update k v al)"
  by (induction al) auto

lemma list_all_delete: "list_all P al \<Longrightarrow> list_all P (AList.delete k al)"
  by (simp add: AList.delete_eq list_all_iff)

lemma interests_distinct_lookup:
  "interests_distinct g \<Longrightarrow> map_of (clientSubscriptions g) c = Some subs \<Longrightarrow> distinct subs"
  unfolding interests_distinct_def list_all_iff by (auto dest: map_of_SomeD)

lemma wfi_new_gateway: "wf_gateway (new_gateway socks) \<and> interests_distinct (new_gateway socks)"
  by (simp add: wf_gateway_def interests_distinct_def new_gateway_def)

lemma wfi_handleConnection:
  assumes "wf_gateway g \<and> interests_distinct g"
  shows "wf_gateway (handleConnection g c) \<and> interests_distinct (handleConnection g c)"
  using assms
  by (simp add: wf_gateway_def interests_distinct_def handleConnection_def distinct_update
      list_all_update)

lemma wfi_handleSubscribe:
  assumes "wf_gateway g \<and> interests_distinct g"
  shows "wf_gateway (snd (handleSubscribe g c q facade))
       \<and> interests_distinct (snd (handleSubscribe g c q facade))"
proof -
  have d: "distinct (set_add subs q)" if "map_of (clientSubscriptions g) c = Some subs" for subs
    using interests_distinct_lookup [OF _ that] assms by (simp add: set_add_def)
  show ?thesis
    using assms d
    by (auto simp: wf_gateway_def interests_distinct_def handleSubscribe_def emit_def Let_def
        distinct_update list_all_update split: option.splits outcome.splits)
qed

lemma wfi_unsubscribeFromQueue:
  assumes "wf_gateway g \<and> interests_distinct g"
  shows "wf_gateway (unsubscribeFromQueue g c q) \<and> interests_distinct (unsubscribeFromQueue g c q)"
proof -
  have d: "distinct (set_delete subs q)" if "map_of (clientSubscriptions g) c = Some subs" for subs
    using interests_distinct_lookup [OF _ that] assms by (simp add: set_delete_def distinct_removeAll)
  show ?thesis
    using assms d
    by (auto simp: wf_gateway_def interests_distinct_def unsubscribeFromQueue_def Let_def
        distinct_update list_all_update split: option.splits)
qed

lemma wfi_handleUnsubscribe:
  assumes "wf_gateway g \<and> interests_distinct g"
  shows "wf_gateway (handleUnsubscribe g c q) \<and> interests_distinct (handleUnsubscribe g c q)"
  using wfi_unsubscribeFromQueue [OF assms, of c q]
  by (simp add: handleUnsubscribe_def emit_def wf_gateway_def interests_distinct_def)

lemma wfi_unsubscribe_fold:
  assumes "wf_gateway g \<and> interests_distinct g"
  shows "wf_gateway (fold (\<lambda>queueName g'. unsubscribeFromQueue g' c queueName) qs g)
       \<and> interests_distinct (fold (\<lambda>queueName g'. unsubscribeFromQueue g' c queueName) qs g)"
  using assms by (induction qs arbitrary: g) (simp_all add: wfi_unsubscribeFromQueue)

lemma wfi_handleDisconnect:
  assumes "wf_gateway g \<and> interests_distinct g"
  shows "wf_gateway (handleDisconnect g c) \<and> interests_distinct (handleDisconnect g c)"
proof (cases "map_of (clientSubscriptions g) c")
  case None
  with assms show ?thesis by (simp add: handleDisconnect_def)
next
  case (Some subs)
  with wfi_unsubscribe_fold [OF assms, of c subs] show ?thesis
    by (simp add: handleDisconnect_def wf_gateway_def interests_distinct_def distinct_delete
        list_all_delete Let_def)
qed

lemma wfi_unsubscribeSettled:
  assumes "wf_gateway g \<and> interests_distinct g"
  shows "wf_gateway (unsubscribeSettled g q settled) \<and> interests_distinct (unsubscribeSettled g q settled)"
  using assms
  by (simp add: unsubscribeSettled_def wf_gateway_def interests_distinct_def Let_def
      split: outcome.splits)

text \<open>
  The registry stays consistent on every path of the multiplexer on which the facade
  does not reject: a connect of a new connection, a subscribe that the facade accepts,
  and an unsubscribe or a disconnect once the facade's \<open>unsubscribe\<close> promises have
  resolved.
\<close>

lemma registry_consistent_handleConnection:
  assumes "registry_consistent g" and "client \<notin> fst ` set (clientSubscriptions g)"
  shows "registry_consistent (handleConnection g client)"
  using assms by (simp add: registry_consistent_def handleConnection_def update_absent)

lemma registry_consistent_handleSubscribe:
  assumes "wf_gateway g" and "registry_consistent g"
  shows "registry_consistent (snd (handleSubscribe g client q Resolves))"
proof -
  have d: "distinct (map fst (clientSubscriptions g))" using assms(1) by (simp add: wf_gateway_def)
  have rc: "fst ` set (queueHandlers g) = set (concat (map snd (clientSubscriptions g)))"
    using assms(2) by (simp add: registry_consistent_def)
  show ?thesis
  proof (cases "map_of (clientSubscriptions g) client")
    case None
    then have a: "client \<notin> fst ` set (clientSubscriptions g)" by (simp add: map_of_eq_None_iff)
    show ?thesis
      using None rc
      by (auto simp: handleSubscribe_def registry_consistent_def emit_def update_absent [OF a]
          dom_update Let_def)
  next
    case (Some subs)
    note sp = interests_split [OF d Some] and up = interests_update [OF d Some]
    show ?thesis
    proof (cases "q \<in> set subs")
      case True
      with Some assms(2) show ?thesis
        by (simp add: handleSubscribe_def registry_consistent_def emit_def)
    next
      case False
      let ?g' = "snd (handleSubscribe g client q Resolves)"
      let ?R = "\<Union>x \<in> set (clientSubscriptions g) - {(client, subs)}. set (snd x)"
      have cs': "clientSubscriptions ?g' =
                 AList.update client (set_add subs q) (clientSubscriptions g)"
        using Some False by (simp add: handleSubscribe_def emit_def Let_def)
      have qh': "fst ` set (queueHandlers ?g') = insert q (fst ` set (queueHandlers g))"
        using Some False by (auto simp: handleSubscribe_def emit_def Let_def dom_update)
      have "fst ` set (queueHandlers ?g') = insert q (set subs \<union> ?R)"
        unfolding qh' rc sp ..
      also have "\<dots> = set (set_add subs q) \<union> ?R" by (auto simp: set_add_def)
      also have "\<dots> = set (concat (map snd (clientSubscriptions ?g')))"
        unfolding cs' up ..
      finally show ?thesis by (simp add: registry_consistent_def)
    qed
  qed
qed

lemma settle_handlers:
  "fst ` set (queueHandlers (fold (\<lambda>queueName g'. unsubscribeSettled g' queueName Resolves) qs g)) =
   fst ` set (queueHandlers g) - set qs"
proof (induction qs arbitrary: g)
  case Nil
  show ?case by simp
next
  case (Cons q qs)
  have "fst ` set (queueHandlers (unsubscribeSettled g q Resolves)) = fst ` set (queueHandlers g) - {q}"
    by (auto simp: unsubscribeSettled_def Let_def AList.delete_eq)
  with Cons [of "unsubscribeSettled g q Resolves"] show ?case by auto
qed

lemma settle_subscriptions [simp]:
  "clientSubscriptions (fold (\<lambda>queueName g'. unsubscribeSettled g' queueName Resolves) qs g) =
   clientSubscriptions g"
  by (induction qs arbitrary: g) (simp_all add: unsubscribeSettled_def Let_def)

lemma registry_consistent_handleUnsubscribe:
  assumes "wf_gateway g" and "registry_consistent g" and "pendingUnsubscribes g = []"
  shows "registry_consistent (settle_all (handleUnsubscribe g client q))"
proof -
  have rc: "fst ` set (queueHandlers g) = set (concat (map snd (clientSubscriptions g)))"
    using assms(2) by (simp add: registry_consistent_def)
  show ?thesis
  proof (cases "\<exists>subs. map_of (clientSubscriptions g) client = Some subs \<and> q \<in> set subs")
    case False
    then have "unsubscribeFromQueue g client q = g"
      by (auto simp: unsubscribeFromQueue_def split: option.splits)
    with assms(2,3) show ?thesis
      by (simp add: settle_all_def handleUnsubscribe_def emit_def registry_consistent_def)
  next
    case True
    then obtain subs where m: "map_of (clientSubscriptions g) client = Some subs"
      and q: "q \<in> set subs" by blast
    have d: "distinct (map fst (clientSubscriptions g))" using assms(1) by (simp add: wf_gateway_def)
    let ?R = "\<Union>x \<in> set (clientSubscriptions g) - {(client, subs)}. set (snd x)"
    let ?g' = "settle_all (handleUnsubscribe g client q)"
    note u = unsubscribeFromQueue_member [OF assms(1) m q]
    have cs': "clientSubscriptions ?g' =
               AList.update client (set_delete subs q) (clientSubscriptions g)"
      by (simp add: settle_all_def handleUnsubscribe_def emit_def u)
    have qh': "fst ` set (queueHandlers ?g') =
               fst ` set (queueHandlers g) - (if others g client q = [] then {q} else {})"
      by (simp add: settle_all_def handleUnsubscribe_def emit_def u settle_handlers assms(3))
    have r: "q \<in> ?R \<longleftrightarrow> others g client q \<noteq> []" by (rule in_rest_iff [OF assms(1) m])
    have "fst ` set (queueHandlers ?g') =
          (set subs \<union> ?R) - (if others g client q = [] then {q} else {})"
      unfolding qh' rc interests_split [OF d m] ..
    also have "\<dots> = set (set_delete subs q) \<union> ?R"
      using r q by (auto simp: set_delete_def)
    also have "\<dots> = set (concat (map snd (clientSubscriptions ?g')))"
      unfolding cs' interests_update [OF d m] ..
    finally show ?thesis by (simp add: registry_consistent_def)
  qed
qed

lemma registry_consistent_handleDisconnect:
  assumes "wf_gateway g" and "registry_consistent g" and "pendingUnsubscribes g = []"
    and "interests_distinct g"
  shows "registry_consistent (settle_all (handleDisconnect g client))"
proof (cases "map_of (clientSubscriptions g) client")
  case None
  with assms(2,3) show ?thesis by (simp add: settle_all_def handleDisconnect_def)
next
  case (Some subs)
  have rc: "fst ` set (queueHandlers g) = set (concat (map snd (clientSubscriptions g)))"
    using assms(2) by (simp add: registry_consistent_def)
  have d: "distinct (map fst (clientSubscriptions g))" using assms(1) by (simp add: wf_gateway_def)
  have ds: "distinct subs" using assms(4) Some by (rule interests_distinct_lookup)
  let ?R = "\<Union>x \<in> set (clientSubscriptions g) - {(client, subs)}. set (snd x)"
  let ?g' = "settle_all (handleDisconnect g client)"
  note f = unsubscribe_fold [OF assms(1) Some ds subset_refl]
  have cs': "clientSubscriptions ?g' = AList.delete client (clientSubscriptions g)"
    using Some by (simp add: settle_all_def handleDisconnect_def f delete_update_same)
  have qh': "fst ` set (queueHandlers ?g') =
             fst ` set (queueHandlers g) - {q \<in> set subs. others g client q = []}"
    using Some by (simp add: settle_all_def handleDisconnect_def f settle_handlers assms(3))
  have r: "\<And>q. q \<in> ?R \<longleftrightarrow> others g client q \<noteq> []" by (rule in_rest_iff [OF assms(1) Some])
  have "fst ` set (queueHandlers ?g') = (set subs \<union> ?R) - {q \<in> set subs. others g client q = []}"
    unfolding qh' rc interests_split [OF d Some] ..
  also have "\<dots> = ?R" using r by auto
  also have "\<dots> = set (concat (map snd (clientSubscriptions ?g')))"
    unfolding cs' interests_delete [OF d Some] ..
  finally show ?thesis by (simp add: registry_consistent_def)
qed

section \<open>Properties of the polling adapter\<close>


lemma set_update_subset: "set (AList.update k v al) \<subseteq> insert (k, v) (set al)"
  by (induction al) auto


lemma pollMessages_frame [simp]:
  "pollingIntervals (pollMessages s c) = pollingIntervals s"
  "timers (pollMessages s c) = timers s"
  "next_timer (pollMessages s c) = next_timer s"
  "subscribedQueues (pollMessages s c) = subscribedQueues s"
  by (simp_all add: pollMessages_def)

lemma process_frame [simp]:
  "pollingIntervals (process s cid c ms) = pollingIntervals s"
  "timers (process s cid c ms) = timers s"
  "next_timer (process s cid c ms) = next_timer s"
  "subscribedQueues (process s cid c ms) = subscribedQueues s"
  by (simp_all add: process_def end_cycle_def Let_def split: list.splits)

lemma receiveSettled_frame [simp]:
  "pollingIntervals (receiveSettled s cid resp) = pollingIntervals s"
  "timers (receiveSettled s cid resp) = timers s"
  "next_timer (receiveSettled s cid resp) = next_timer s"
  "subscribedQueues (receiveSettled s cid resp) = subscribedQueues s"
  by (simp_all add: receiveSettled_def end_cycle_def
      split: option.splits cycle_state.splits sum.splits prod.splits)

lemma handlerSettled_frame [simp]:
  "pollingIntervals (handlerSettled s cid settled) = pollingIntervals s"
  "timers (handlerSettled s cid settled) = timers s"
  "next_timer (handlerSettled s cid settled) = next_timer s"
  "subscribedQueues (handlerSettled s cid settled) = subscribedQueues s"
  by (simp_all add: handlerSettled_def
      split: option.splits cycle_state.splits outcome.splits prod.splits)

lemma deleteSettled_frame [simp]:
  "pollingIntervals (deleteSettled s cid settled) = pollingIntervals s"
  "timers (deleteSettled s cid settled) = timers s"
  "next_timer (deleteSettled s cid settled) = next_timer s"
  "subscribedQueues (deleteSettled s cid settled) = subscribedQueues s"
  by (simp_all add: deleteSettled_def split: option.splits cycle_state.splits prod.splits)

lemma sqs_inv_frame:
  assumes "sqs_inv s" and "pollingIntervals s' = pollingIntervals s"
    and "timers s' = timers s" and "next_timer s' = next_timer s"
  shows "sqs_inv s'"
  using assms(1) unfolding sqs_inv_def assms(2,3,4) .


lemma retire_inv:
  assumes "sqs_inv s" and "map_of (pollingIntervals s) q = Some t"
  shows "sqs_inv ((clearInterval (s\<lparr>subscribedQueues := live'\<rparr>) t)
                    \<lparr>pollingIntervals := AList.delete q (pollingIntervals s)\<rparr>)"
proof -
  have d1: "distinct (map fst (AList.delete q (pollingIntervals s)))"
    using assms(1) by (simp add: sqs_inv_def distinct_delete)
  have d2: "distinct (map fst (AList.delete t (timers s)))"
    using assms(1) by (simp add: sqs_inv_def distinct_delete)
  have "t' < next_timer s \<and> map_of (AList.delete q (pollingIntervals s)) (pc_queueName c) = Some t'"
    if "(t', c) \<in> set (AList.delete t (timers s))" for t' c
  proof -
    from that have mem: "(t', c) \<in> set (timers s)" and ne: "t' \<noteq> t"
      by (auto simp: AList.delete_eq)
    from mem assms(1) have lt: "t' < next_timer s"
      and m: "map_of (pollingIntervals s) (pc_queueName c) = Some t'"
      unfolding sqs_inv_def by auto
    from m ne assms(2) have "pc_queueName c \<noteq> q" by auto
    with m lt show ?thesis by (simp add: delete_conv')
  qed
  moreover have "t' < next_timer s" if "(q', t') \<in> set (AList.delete q (pollingIntervals s))" for q' t'
    using that assms(1) unfolding sqs_inv_def by (auto simp: AList.delete_eq)
  ultimately show ?thesis using d1 d2 unfolding sqs_inv_def clearInterval_def by auto
qed

lemma retire_no_key:
  "q \<notin> fst ` set (pollingIntervals ((clearInterval (s\<lparr>subscribedQueues := live'\<rparr>) t)
                    \<lparr>pollingIntervals := AList.delete q (pollingIntervals s)\<rparr>))"
  by (simp add: clearInterval_def delete_notin_dom)

lemma sqs_unsubscribe_inv:
  assumes "sqs_inv s"
  shows "sqs_inv (snd (sqs_unsubscribe s q))"
proof (cases "map_of (pollingIntervals s) q")
  case None
  then have "snd (sqs_unsubscribe s q) = s\<lparr>subscribedQueues := set_delete (subscribedQueues s) q\<rparr>"
    by (simp add: sqs_unsubscribe_def)
  with assms show ?thesis by (simp add: sqs_inv_frame)
next
  case (Some t)
  then have "snd (sqs_unsubscribe s q) =
      (clearInterval (s\<lparr>subscribedQueues := set_delete (subscribedQueues s) q\<rparr>) t)
         \<lparr>pollingIntervals := AList.delete q (pollingIntervals s)\<rparr>"
    by (simp add: sqs_unsubscribe_def)
  with retire_inv [OF assms Some] show ?thesis by simp
qed

text \<open>Installing a schedule for a queue that has none.\<close>

lemma install_inv:
  assumes "sqs_inv s1" and "q \<notin> fst ` set (pollingIntervals s1)" and "pc_queueName c = q"
    and "pollingIntervals s3 = pollingIntervals s1" and "timers s3 = timers s1"
    and "next_timer s3 = next_timer s1"
  shows "sqs_inv ((snd (setInterval s3 c))
                    \<lparr>pollingIntervals := AList.update q (fst (setInterval s3 c))
                                           (pollingIntervals (snd (setInterval s3 c)))\<rparr>)"
proof -
  let ?nt = "next_timer s1"
  have none: "map_of (pollingIntervals s1) q = None"
    using assms(2) by (simp add: map_of_eq_None_iff)
  have old: "t < ?nt \<and> map_of (pollingIntervals s1) (pc_queueName c') = Some t \<and> pc_queueName c' \<noteq> q"
    if "(t, c') \<in> set (timers s1)" for t c'
  proof -
    from that assms(1) have "t < ?nt" and m: "map_of (pollingIntervals s1) (pc_queueName c') = Some t"
      unfolding sqs_inv_def by auto
    moreover from m none have "pc_queueName c' \<noteq> q" by auto
    ultimately show ?thesis by simp
  qed
  have fresh: "?nt \<notin> fst ` set (timers s1)" using old by fastforce
  have d1: "distinct (map fst (AList.update q ?nt (pollingIntervals s1)))"
    using assms(1) by (simp add: sqs_inv_def distinct_update)
  have d2: "distinct (map fst (timers s1 @ [(?nt, c)]))"
    using assms(1) fresh by (simp add: sqs_inv_def)
  have all: "t < Suc ?nt \<and> map_of (AList.update q ?nt (pollingIntervals s1)) (pc_queueName c') = Some t"
    if "(t, c') \<in> set (timers s1 @ [(?nt, c)])" for t c'
    using that old assms(3) by (auto simp: update_conv' less_Suc_eq)
  have pi: "t < Suc ?nt" if "(q', t) \<in> set (AList.update q ?nt (pollingIntervals s1))" for q' t
  proof -
    from that set_update_subset have "(q', t) = (q, ?nt) \<or> (q', t) \<in> set (pollingIntervals s1)"
      by fastforce
    then show ?thesis using assms(1) unfolding sqs_inv_def by (auto simp: less_Suc_eq)
  qed
  show ?thesis
    unfolding sqs_inv_def setInterval_def using d1 d2 all pi by (auto simp: assms(4,5,6))
qed


lemma stopExisting_inv:
  assumes "sqs_inv s"
  shows "sqs_inv (stopExisting s q) \<and> q \<notin> fst ` set (pollingIntervals (stopExisting s q))
         \<and> next_timer (stopExisting s q) = next_timer s"
proof (cases "map_of (pollingIntervals s) q")
  case None
  then have "q \<notin> fst ` set (pollingIntervals s)" by (simp add: map_of_eq_None_iff)
  with assms show ?thesis by (simp add: stopExisting_def)
next
  case (Some t)
  then have "q \<in> fst ` set (pollingIntervals s)"
    by (metis map_of_eq_None_iff option.distinct(1))
  with Some have eq: "stopExisting s q =
      (clearInterval (s\<lparr>subscribedQueues := set_delete (subscribedQueues s) q\<rparr>) t)
         \<lparr>pollingIntervals := AList.delete q (pollingIntervals s)\<rparr>"
    by (simp add: stopExisting_def)
  show ?thesis
    unfolding eq using retire_inv [OF assms Some] retire_no_key
    by (simp add: clearInterval_def)
qed

lemma sqs_subscribe_Inr:
  "snd (sqs_subscribe s q h (Inr url)) =
     (let c = \<lparr>pc_queueName = q, pc_queueUrl = url, pc_handler = h\<rparr>;
          s3 = pollMessages ((stopExisting s q)
                 \<lparr>subscribedQueues := set_add (subscribedQueues (stopExisting s q)) q\<rparr>) c
      in (snd (setInterval s3 c))
           \<lparr>pollingIntervals := AList.update q (fst (setInterval s3 c))
                                  (pollingIntervals (snd (setInterval s3 c)))\<rparr>)"
  by (simp add: sqs_subscribe_def Let_def split_def)

lemma sqs_subscribe_inv:
  assumes "sqs_inv s"
  shows "sqs_inv (snd (sqs_subscribe s q h url))"
proof (cases url)
  case (Inl e)
  with assms show ?thesis by (simp add: sqs_subscribe_def)
next
  case (Inr u)
  note st = stopExisting_inv [OF assms, of q]
  show ?thesis
    unfolding Inr sqs_subscribe_Inr Let_def
    by (rule install_inv [where ?s1.0 = "stopExisting s q"]) (use st in simp_all)
qed

lemma clear_all_timers:
  "timers (fold (\<lambda>interval s'. clearInterval s' interval) ts s) =
   filter (\<lambda>(t, c). t \<notin> set ts) (timers s)"
proof (induction ts arbitrary: s)
  case Nil
  show ?case by simp
next
  case (Cons t ts)
  have "filter (\<lambda>(t', c). t' \<notin> set ts) (AList.delete t (timers s)) =
        filter (\<lambda>(t', c). t' \<notin> set (t # ts)) (timers s)"
    by (induction "timers s") (auto simp: AList.delete_eq split_def intro: filter_cong)
  with Cons [of "clearInterval s t"] show ?case by (simp add: clearInterval_def)
qed

lemma clear_all_next_timer [simp]:
  "next_timer (fold (\<lambda>interval s'. clearInterval s' interval) ts s) = next_timer s"
  by (induction ts arbitrary: s) (simp_all add: clearInterval_def)

lemma sqs_onModuleDestroy_inv:
  assumes "sqs_inv s"
  shows "sqs_inv (sqs_onModuleDestroy s)"
proof -
  have "t \<in> snd ` set (pollingIntervals s)" if "(t, c) \<in> set (timers s)" for t c
  proof -
    from that assms have "map_of (pollingIntervals s) (pc_queueName c) = Some t"
      unfolding sqs_inv_def by auto
    then have "(pc_queueName c, t) \<in> set (pollingIntervals s)" by (rule map_of_SomeD)
    then show ?thesis by force
  qed
  then have "filter (\<lambda>(t, c). t \<notin> set (map snd (pollingIntervals s))) (timers s) = []"
    by (auto simp: filter_empty_conv)
  then show ?thesis
    by (simp add: sqs_onModuleDestroy_def sqs_inv_def clear_all_timers)
qed

lemma sqs_step_inv:
  assumes "sqs_inv s"
  shows "sqs_inv (sqs_step s e)"
proof (cases e)
  case (Subscribe q h u)
  with assms show ?thesis by (simp add: sqs_subscribe_inv)
next
  case (Unsubscribe q)
  with assms show ?thesis by (simp add: sqs_unsubscribe_inv)
next
  case ModuleDestroy
  with assms show ?thesis by (simp add: sqs_onModuleDestroy_inv)
next
  case (TimerFires t)
  with assms show ?thesis by (auto intro: sqs_inv_frame split: option.splits)
next
  case (ReceiveSettled cid r)
  with assms show ?thesis by (auto intro: sqs_inv_frame)
next
  case (HandlerSettled cid r)
  with assms show ?thesis by (auto intro: sqs_inv_frame)
next
  case (DeleteSettled cid r)
  with assms show ?thesis by (auto intro: sqs_inv_frame)
qed

lemma sqs_run_inv:
  "sqs_inv s \<Longrightarrow> sqs_inv (sqs_run s events)"
  unfolding sqs_run_def by (induction events arbitrary: s) (simp_all add: sqs_step_inv)

lemma new_sqs_inv: "sqs_inv new_sqs"
  by (simp add: new_sqs_def sqs_inv_def)



lemma invocations_append [simp]:
  "invocations q (xs @ ys) = invocations q xs @ invocations q ys"
  by (simp add: invocations_def)

lemma invocations_simps [simp]:
  "invocations q [] = []"
  "invocations q (DeleteSent u r # as) = invocations q as"
  "invocations q (ReceiveSent u # as) = invocations q as"
  "invocations q (HandlerInvoked q' h m # as) =
     (if q' = q then HandlerInvoked q' h m # invocations q as else invocations q as)"
  by (simp_all add: invocations_def)

lemma pollMessages_invocations [simp]:
  "invocations q (actions (pollMessages s c)) = invocations q (actions s)"
  by (simp add: pollMessages_def invocations_def)

lemma process_invocations:
  "q \<notin> set (subscribedQueues s) \<Longrightarrow>
   invocations q (actions (process s cid c ms)) = invocations q (actions s)"
  by (auto simp: process_def end_cycle_def Let_def invocations_def split: list.splits)

lemma stopExisting_frame:
  "set (subscribedQueues (stopExisting s q')) \<subseteq> set (subscribedQueues s)"
  "actions (stopExisting s q') = actions s"
  by (auto simp: stopExisting_def clearInterval_def set_delete_def Let_def split: option.splits)

lemma clear_all_actions [simp]:
  "actions (fold (\<lambda>interval s'. clearInterval s' interval) ts s) = actions s"
  by (induction ts arbitrary: s) (simp_all add: clearInterval_def)

lemma dead_step:
  assumes "q \<notin> set (subscribedQueues s)" and "\<not> is_subscribe q e"
  shows "q \<notin> set (subscribedQueues (sqs_step s e))
       \<and> invocations q (actions (sqs_step s e)) = invocations q (actions s)"
proof (cases e)
  case (Subscribe q' h u)
  with assms(2) have ne: "q' \<noteq> q" by (simp add: is_subscribe_def)
  show ?thesis
  proof (cases u)
    case (Inl err)
    with Subscribe assms(1) show ?thesis by (simp add: sqs_subscribe_def)
  next
    case (Inr url)
    from assms(1) stopExisting_frame(1) [of s q']
    have "q \<notin> set (subscribedQueues (stopExisting s q'))" by blast
    with ne show ?thesis
      unfolding Subscribe Inr sqs_step.simps sqs_subscribe_Inr
      by (simp add: Let_def setInterval_def set_add_def stopExisting_frame(2))
  qed
next
  case (Unsubscribe q')
  with assms(1) show ?thesis
    by (auto simp: sqs_unsubscribe_def clearInterval_def set_delete_def Let_def split: option.splits)
next
  case ModuleDestroy
  then show ?thesis by (simp add: sqs_onModuleDestroy_def)
next
  case (TimerFires t)
  with assms(1) show ?thesis by (simp split: option.splits)
next
  case (ReceiveSettled cid r)
  with assms(1) show ?thesis
    by (auto simp: receiveSettled_def end_cycle_def process_invocations
        split: option.splits cycle_state.splits sum.splits prod.splits)
next
  case (HandlerSettled cid r)
  with assms(1) show ?thesis
    by (auto simp: handlerSettled_def process_invocations
        split: option.splits cycle_state.splits outcome.splits prod.splits)
next
  case (DeleteSettled cid r)
  with assms(1) show ?thesis
    by (auto simp: deleteSettled_def process_invocations
        split: option.splits cycle_state.splits prod.splits)
qed

lemma dead_run:
  assumes "q \<notin> set (subscribedQueues s)" and "\<forall>e \<in> set events. \<not> is_subscribe q e"
  shows "invocations q (actions (sqs_run s events)) = invocations q (actions s)"
  using assms unfolding sqs_run_def
proof (induction events arbitrary: s)
  case Nil
  show ?case by simp
next
  case (Cons e events)
  from Cons.prems have d: "q \<notin> set (subscribedQueues (sqs_step s e))"
    and i: "invocations q (actions (sqs_step s e)) = invocations q (actions s)"
    using dead_step [of q s e] by simp_all
  from Cons.IH [OF d] Cons.prems(2) i show ?case by simp
qed

lemma sqs_unsubscribe_effect:
  "q \<notin> set (subscribedQueues (snd (sqs_unsubscribe s q)))"
  "actions (snd (sqs_unsubscribe s q)) = actions s"
  "fst (sqs_unsubscribe s q) = Returned"
  by (simp_all add: sqs_unsubscribe_def clearInterval_def set_delete_def Let_def split: option.splits)

lemma sqs_unsubscribe_schedules:
  assumes "sqs_inv s"
  shows "schedules (snd (sqs_unsubscribe s q)) q = []"
proof -
  have inv': "sqs_inv (snd (sqs_unsubscribe s q))" using assms by (rule sqs_unsubscribe_inv)
  have none: "map_of (pollingIntervals (snd (sqs_unsubscribe s q))) q = None"
    by (simp add: sqs_unsubscribe_def clearInterval_def Let_def delete_conv' split: option.splits)
  have "pc_queueName c \<noteq> q" if "(t, c) \<in> set (timers (snd (sqs_unsubscribe s q)))" for t c
  proof -
    from that inv' have "map_of (pollingIntervals (snd (sqs_unsubscribe s q))) (pc_queueName c) = Some t"
      unfolding sqs_inv_def by auto
    with none show ?thesis by auto
  qed
  then show ?thesis by (auto simp: schedules_def filter_empty_conv)
qed

section \<open>Properties of the event-driven adapter\<close>



lemma rabbit_inv_simps [simp]:
  "rabbit_inv (send r op) = rabbit_inv r"
  "rabbit_inv (suspend r cid point) = rabbit_inv r"
  "rabbit_inv (finish r cid) = rabbit_inv r"
  "rabbit_inv (r\<lparr>channel := ch\<rparr>) = rabbit_inv r"
  "rabbit_inv (r\<lparr>next_call := n\<rparr>) = rabbit_inv r"
  by (simp_all add: rabbit_inv_def send_def suspend_def finish_def)

lemma point_ok_simps [simp]:
  "point_ok (send r op) point = point_ok r point"
  "point_ok (suspend r cid point') point = point_ok r point"
  "point_ok (finish r cid) point = point_ok r point"
  "point_ok (r\<lparr>next_call := n\<rparr>) point = point_ok r point"
  by (simp_all add: point_ok_def send_def suspend_def finish_def split: suspended.splits)

lemma pending_simps [simp]:
  "pending (send r op) = pending r"
  "pending (suspend r cid point) = AList.update cid point (pending r)"
  "pending (finish r cid) = AList.delete cid (pending r)"
  "pending (cancelled r q t) = pending r"
  by (simp_all add: send_def suspend_def finish_def cancelled_def)

lemma consumers_simps [simp]:
  "consumers (send r op) = consumers r"
  "consumers (suspend r cid point) = consumers r"
  "consumers (finish r cid) = consumers r"
  "channel (send r op) = channel r"
  "channel (suspend r cid point) = channel r"
  "channel (finish r cid) = channel r"
  "channel (cancelled r q t) = channel r"
  by (simp_all add: send_def suspend_def finish_def cancelled_def)


















lemma first_subscribe_eq:
  "rabbit_run new_rabbit first_subscribe =
   \<lparr>channel = True, consumers = [(''orders'', 0)],
      broker_consumers = [(0, ''orders'', 1)], next_tag = 1,
      channel_ops = [AssertQueue ''orders'', Consume ''orders''],
      pending = [], next_call = 1\<rparr>"
  by (simp add: first_subscribe_def rabbit_run_def rabbit_subscribe_def rabbit_resume_def
        new_rabbit_def sendAssertQueue_def sendConsume_def cancelConsumer_def
        send_def suspend_def finish_def Let_def)


section \<open>The multiplexer: registry, fan-out and teardown\<close>

lemma two_subscribers_eq:
  "two_subscribers socks =
     \<lparr>clientSubscriptions = [(''c1'', [''orders'']), (''c2'', [''orders''])],
      queueHandlers = [(''orders'', FanOut ''orders'')],
      server_sockets = socks,
      emitted = [(''c1'', ''queue:subscribed'', Notice ''orders'' ''Successfully subscribed to queue''),
                 (''c2'', ''queue:subscribed'', Notice ''orders'' ''Successfully subscribed to queue'')],
      facadeCalls = [FSubscribe ''orders'' (FanOut ''orders'')],
      pendingUnsubscribes = []\<rparr>"
  by (simp add: two_subscribers_def handleSubscribe_def handleConnection_def new_gateway_def
      emit_def set_add_def)

lemma failed_subscribe_eq:
  "failed_subscribe =
     \<lparr>clientSubscriptions = [(''c1'', [])],
      queueHandlers = [(''orders'', FanOut ''orders'')],
      server_sockets = [(''c1'', EmitOk), (''c2'', EmitOk)],
      emitted = [],
      facadeCalls = [FSubscribe ''orders'' (FanOut ''orders'')],
      pendingUnsubscribes = []\<rparr>"
  by (simp add: failed_subscribe_def handleSubscribe_def handleConnection_def new_gateway_def)

text \<open>
  C1 (registry consistency). The claim is that after every operation, also after a
  subscribe that the facade rejects, a queue name is a key of \<open>queueHandlers\<close> iff some
  interest-set holds it. \<open>handleSubscribe\<close> stores the handler before it awaits the facade
  and does not take it back when the facade rejects. Evaluated on a fresh connection
  \<open>c1\<close>: the registry is consistent before; the call throws \<open>QueueSubscribeError\<close>;
  afterwards \<open>orders\<close> is a key of \<open>queueHandlers\<close> and no interest-set holds it. A later
  subscribe of \<open>c2\<close> to \<open>orders\<close> then finds the handler, makes no call on the facade, and
  reports success.
\<close>

theorem C1_failed_subscribe_leaves_handler:
  "registry_consistent (handleConnection (new_gateway [(''c1'', EmitOk), (''c2'', EmitOk)]) ''c1'')
   \<and> fst (handleSubscribe (handleConnection (new_gateway [(''c1'', EmitOk), (''c2'', EmitOk)]) ''c1'')
            ''c1'' ''orders'' (Rejects (QueueSubscribeError ''orders'')))
       = Threw (QueueSubscribeError ''orders'')
   \<and> map fst (queueHandlers failed_subscribe) = [''orders'']
   \<and> clientSubscriptions failed_subscribe = [(''c1'', [])]
   \<and> \<not> registry_consistent failed_subscribe
   \<and> handleSubscribe failed_subscribe ''c2'' ''orders'' Resolves =
       (Returned,
        failed_subscribe
          \<lparr>clientSubscriptions := [(''c1'', []), (''c2'', [''orders''])],
           emitted := [(''c2'', ''queue:subscribed'',
                        Notice ''orders'' ''Successfully subscribed to queue'')]\<rparr>)"
  unfolding failed_subscribe_eq
  by (simp add: registry_consistent_def handleSubscribe_def handleConnection_def new_gateway_def
      emit_def)

text \<open>
  C5 (duplicate subscribe). When the connection's interest-set already holds the queue,
  \<open>handleSubscribe\<close> returns, whatever the facade would have answered; the state it
  leaves differs from the state before only by one emitted \<^verbatim>\<open>queue:subscribed\<close> event
  with the message \<^verbatim>\<open>Already subscribed to this queue\<close>: both maps and the list of
  facade calls are unchanged.
\<close>

theorem C5_duplicate_subscribe:
  assumes "map_of (clientSubscriptions g) client = Some subs" and "queueName \<in> set subs"
  shows "handleSubscribe g client queueName facade =
           (Returned, g\<lparr>emitted := emitted g @
              [(client, ''queue:subscribed'', Notice queueName ''Already subscribed to this queue'')]\<rparr>)"
  using assms by (simp add: handleSubscribe_def emit_def)

text \<open>C5 at \<open>c1\<close>, already subscribed to \<open>orders\<close>, with a facade that would reject.\<close>

theorem C5_duplicate_subscribe_witness:
  "map_of (clientSubscriptions (two_subscribers [])) ''c1'' = Some [''orders'']
   \<and> ''orders'' \<in> set [''orders'']
   \<and> handleSubscribe (two_subscribers []) ''c1'' ''orders'' (Rejects (OtherError ''unused'')) =
       (Returned, (two_subscribers [])\<lparr>emitted := emitted (two_subscribers []) @
          [(''c1'', ''queue:subscribed'', Notice ''orders'' ''Already subscribed to this queue'')]\<rparr>)"
  using C5_duplicate_subscribe [of "two_subscribers []" "''c1''" "[''orders'']" "''orders''"
      "Rejects (OtherError ''unused'')"]
  by (simp add: two_subscribers_eq)

text \<open>
  C4 (last-subscriber teardown). For a connection with interest-set \<open>subs\<close>: an explicit
  unsubscribe from a queue of \<open>subs\<close> calls the facade's \<open>unsubscribe\<close> for it once when
  no other connection holds the queue and not at all otherwise; a disconnect calls the
  facade's \<open>unsubscribe\<close> exactly once for each queue of \<open>subs\<close> that no other connection
  holds, in the order of \<open>subs\<close>, and for no other queue, and leaves the interest-sets
  of the other connections as they were.
\<close>

theorem C4_last_subscriber_teardown:
  assumes "wf_gateway g" and "map_of (clientSubscriptions g) client = Some subs"
    and "distinct subs"
  shows "(queueName \<in> set subs \<longrightarrow>
            facadeCalls (handleUnsubscribe g client queueName) =
              facadeCalls g @ (if others g client queueName = [] then [FUnsubscribe queueName] else []))
       \<and> facadeCalls (handleDisconnect g client) =
            facadeCalls g @ map FUnsubscribe (filter (\<lambda>q. others g client q = []) subs)
       \<and> (\<forall>q. count_list (drop (length (facadeCalls g)) (facadeCalls (handleDisconnect g client)))
                  (FUnsubscribe q) =
                (if q \<in> set subs \<and> others g client q = [] then 1 else 0))
       \<and> clientSubscriptions (handleDisconnect g client) =
           AList.delete client (clientSubscriptions g)"
proof -
  have e: "clientSubscriptions (handleDisconnect g client) =
           AList.delete client (clientSubscriptions g)"
    using assms(2) unsubscribe_fold [OF assms(1,2,3) subset_refl]
    by (simp add: handleDisconnect_def delete_update_same)
  have a: "queueName \<in> set subs \<Longrightarrow>
            facadeCalls (handleUnsubscribe g client queueName) =
              facadeCalls g @ (if others g client queueName = [] then [FUnsubscribe queueName] else [])"
    by (simp add: handleUnsubscribe_def emit_def unsubscribeFromQueue_member [OF assms(1,2)])
  have b: "facadeCalls (handleDisconnect g client) =
            facadeCalls g @ map FUnsubscribe (filter (\<lambda>q. others g client q = []) subs)"
    using assms(2) unsubscribe_fold [OF assms(1,2,3) subset_refl]
    by (simp add: handleDisconnect_def)
  have c: "count_list (map FUnsubscribe (filter (\<lambda>q. others g client q = []) subs)) (FUnsubscribe q) =
           (if q \<in> set subs \<and> others g client q = [] then 1 else 0)" for q
  proof -
    have "count_list (map FUnsubscribe (filter (\<lambda>q. others g client q = []) subs)) (FUnsubscribe q)
          = count_list (filter (\<lambda>q. others g client q = []) subs) q"
      by (rule count_list_map_conv) (simp add: inj_def)
    also have "\<dots> = (if q \<in> set subs \<and> others g client q = [] then 1 else 0)"
      using assms(3) by (induction subs) auto
    finally show ?thesis .
  qed
  show ?thesis using a b c e by simp
qed


text \<open>C4 at \<open>c1\<close>, which shares \<open>orders\<close> with \<open>c2\<close> and is alone on \<open>audit\<close>.\<close>

theorem C4_last_subscriber_teardown_witness:
  "wf_gateway shared_and_own
   \<and> map_of (clientSubscriptions shared_and_own) ''c1'' = Some [''orders'', ''audit'']
   \<and> distinct [''orders'', ''audit'']
   \<and> facadeCalls (handleUnsubscribe shared_and_own ''c1'' ''audit'') = [FUnsubscribe ''audit'']
   \<and> facadeCalls (handleUnsubscribe shared_and_own ''c1'' ''orders'') = []
   \<and> facadeCalls (handleDisconnect shared_and_own ''c1'') = [FUnsubscribe ''audit'']
   \<and> count_list (facadeCalls (handleDisconnect shared_and_own ''c1'')) (FUnsubscribe ''audit'') = 1
   \<and> count_list (facadeCalls (handleDisconnect shared_and_own ''c1'')) (FUnsubscribe ''orders'') = 0
   \<and> clientSubscriptions (handleDisconnect shared_and_own ''c1'') = [(''c2'', [''orders''])]"
proof -
  have wf: "wf_gateway shared_and_own"
    by (simp add: shared_and_own_def wf_gateway_def new_gateway_def)
  have m: "map_of (clientSubscriptions shared_and_own) ''c1'' = Some [''orders'', ''audit'']"
    by (simp add: shared_and_own_def new_gateway_def)
  have d: "distinct [''orders'', ''audit'']" by simp
  have o: "others shared_and_own ''c1'' ''audit'' = []" "others shared_and_own ''c1'' ''orders'' = [''c2'']"
    by (simp_all add: shared_and_own_def new_gateway_def others_def clients_def)
  have f: "facadeCalls shared_and_own = []" by (simp add: shared_and_own_def new_gateway_def)
  have cs: "clientSubscriptions shared_and_own =
              [(''c1'', [''orders'', ''audit'']), (''c2'', [''orders''])]"
    by (simp add: shared_and_own_def new_gateway_def)
  from C4_last_subscriber_teardown [OF wf m d, of "''audit''"]
       C4_last_subscriber_teardown [OF wf m d, of "''orders''"]
  show ?thesis using wf m o f cs by simp
qed

lemma handleUnsubscribe_clients:
  assumes "wf_gateway g"
  shows "client \<notin> set (clients (handleUnsubscribe g client q) q)"
proof -
  let ?g' = "unsubscribeFromQueue g client q"
  have wf': "wf_gateway ?g'" using assms by (rule wf_unsubscribeFromQueue)
  have "\<not> (\<exists>qs. map_of (clientSubscriptions ?g') client = Some qs \<and> q \<in> set qs)"
    by (auto simp: unsubscribeFromQueue_def Let_def update_conv' set_delete_def
        split: option.splits if_splits)
  then have "client \<notin> set (clients ?g' q)" unfolding clients_set [OF wf'] by simp
  then show ?thesis by (simp add: handleUnsubscribe_def emit_def clients_def)
qed

lemma invoke_emitted:
  "emitted (snd (invoke (FanOut q) g m)) = emitted g @ map (message_event q m) (recipients g q)"
  by (simp add: deliver_eq recipients_def)

lemma recipients_subset: "set (recipients g q) \<subseteq> set (clients g q)"
  unfolding recipients_def reached_def by (auto dest: set_takeWhileD)

lemma handleUnsubscribe_recipients:
  assumes "wf_gateway g"
  shows "client \<notin> set (recipients (handleUnsubscribe g client q) q)"
  using handleUnsubscribe_clients [OF assms, of client q] recipients_subset by blast

text \<open>
  C2 (fan-out), as amended. One invocation of the handler of a queue emits the message to
  the connections \<open>recipients\<close>, computed from the interest-sets and the socket map at the
  time of the call. When no emit throws, these are the connections whose interest-set
  holds the queue and for which the server's socket map has a socket, each once, in the
  order of \<open>clientSubscriptions\<close>; a connection without a socket is passed over. A
  connection that has unsubscribed from the queue is not among the recipients.
\<close>

theorem C2_fanout_to_connected_sockets:
  assumes "wf_gateway g"
    and "\<forall>c \<in> set (clients g queueName). map_of (server_sockets g) c \<noteq> Some EmitThrows"
  shows "fst (invoke (FanOut queueName) g message) = Returned
       \<and> emitted (snd (invoke (FanOut queueName) g message)) =
           emitted g @ map (message_event queueName message) (recipients g queueName)
       \<and> recipients g queueName =
           filter (\<lambda>c. map_of (server_sockets g) c \<noteq> None) (clients g queueName)
       \<and> distinct (clients g queueName)
       \<and> set (clients g queueName) =
           {c. \<exists>queues. map_of (clientSubscriptions g) c = Some queues \<and> queueName \<in> set queues}
       \<and> client \<notin> set (recipients (handleUnsubscribe g client queueName) queueName)"
proof (intro conjI)
  have r: "reached g (clients g queueName) = clients g queueName"
    using assms(2) by (simp add: reached_def)
  show "fst (invoke (FanOut queueName) g message) = Returned"
    by (simp add: deliver_eq r)
  show "emitted (snd (invoke (FanOut queueName) g message)) =
           emitted g @ map (message_event queueName message) (recipients g queueName)"
    by (rule invoke_emitted)
  show "recipients g queueName =
           filter (\<lambda>c. map_of (server_sockets g) c \<noteq> None) (clients g queueName)"
    unfolding recipients_def r
  proof (rule filter_cong [OF refl])
    fix c assume "c \<in> set (clients g queueName)"
    with assms(2) have "map_of (server_sockets g) c \<noteq> Some EmitThrows" by simp
    then show "(map_of (server_sockets g) c = Some EmitOk) = (map_of (server_sockets g) c \<noteq> None)"
      by (cases "map_of (server_sockets g) c") (auto intro: socket.exhaust)
  qed
  show "distinct (clients g queueName)" by (rule clients_distinct [OF assms(1)])
  show "set (clients g queueName) =
           {c. \<exists>queues. map_of (clientSubscriptions g) c = Some queues \<and> queueName \<in> set queues}"
    by (rule clients_set [OF assms(1)])
  show "client \<notin> set (recipients (handleUnsubscribe g client queueName) queueName)"
    by (rule handleUnsubscribe_recipients [OF assms(1)])
qed

text \<open>
  C2 at two connections subscribed to \<open>orders\<close>, both with a socket: each receives the
  message once; after \<open>c1\<close> has unsubscribed, only \<open>c2\<close> receives it.
\<close>

theorem C2_fanout_to_connected_sockets_witness:
  "wf_gateway (two_subscribers [(''c1'', EmitOk), (''c2'', EmitOk)])
   \<and> clients (two_subscribers [(''c1'', EmitOk), (''c2'', EmitOk)]) ''orders'' = [''c1'', ''c2'']
   \<and> fst (invoke (FanOut ''orders'') (two_subscribers [(''c1'', EmitOk), (''c2'', EmitOk)]) hello)
       = Returned
   \<and> emitted (snd (invoke (FanOut ''orders'') (two_subscribers [(''c1'', EmitOk), (''c2'', EmitOk)]) hello)) =
       emitted (two_subscribers [(''c1'', EmitOk), (''c2'', EmitOk)]) @
       [(''c1'', ''queue:message'', Delivery ''orders'' hello),
        (''c2'', ''queue:message'', Delivery ''orders'' hello)]
   \<and> recipients (handleUnsubscribe (two_subscribers [(''c1'', EmitOk), (''c2'', EmitOk)])
                   ''c1'' ''orders'') ''orders'' = [''c2'']"
proof -
  let ?g = "two_subscribers [(''c1'', EmitOk), (''c2'', EmitOk)]"
  have wf: "wf_gateway ?g" by (simp add: two_subscribers_eq wf_gateway_def)
  have cl: "clients ?g ''orders'' = [''c1'', ''c2'']" by (simp add: two_subscribers_eq clients_def)
  have nt: "\<forall>c \<in> set (clients ?g ''orders''). map_of (server_sockets ?g) c \<noteq> Some EmitThrows"
    unfolding cl by (simp add: two_subscribers_eq)
  have ss: "server_sockets ?g = [(''c1'', EmitOk), (''c2'', EmitOk)]" by (simp add: two_subscribers_eq)
  note C2 = C2_fanout_to_connected_sockets [OF wf nt, of hello "''c1''"]
  have rc: "recipients ?g ''orders'' = [''c1'', ''c2'']"
    using C2 [THEN conjunct2, THEN conjunct2, THEN conjunct1] unfolding cl ss by simp
  have a: "fst (invoke (FanOut ''orders'') ?g hello) = Returned"
    by (rule C2 [THEN conjunct1])
  have b: "emitted (snd (invoke (FanOut ''orders'') ?g hello)) =
       emitted ?g @
       [(''c1'', ''queue:message'', Delivery ''orders'' hello),
        (''c2'', ''queue:message'', Delivery ''orders'' hello)]"
    using C2 [THEN conjunct2, THEN conjunct1] unfolding rc by (simp add: message_event_def)
  have c: "recipients (handleUnsubscribe ?g ''c1'' ''orders'') ''orders'' = [''c2'']"
    by (simp add: two_subscribers_eq handleUnsubscribe_def unsubscribeFromQueue_def emit_def
        recipients_def reached_def clients_def set_delete_def)
  show ?thesis
    by (intro conjI) (rule wf cl a b c)+
qed

text \<open>
  C2 as stated fails. \<open>c1\<close> is subscribed to \<open>orders\<close>, the server's socket map has no
  socket for it, and the handler emits nothing. And with two subscribers of \<open>orders\<close>
  that both have a socket, where the emit to \<open>c1\<close> throws, the handler emits to no one.
\<close>

theorem C2_counterexample:
  "''c1'' \<in> set (clients unconnected_subscriber ''orders'')
   \<and> emitted (snd (invoke (FanOut ''orders'') unconnected_subscriber hello)) =
       emitted unconnected_subscriber
   \<and> ''c2'' \<in> set (clients (two_subscribers [(''c1'', EmitThrows), (''c2'', EmitOk)]) ''orders'')
   \<and> emitted (snd (invoke (FanOut ''orders'')
                       (two_subscribers [(''c1'', EmitThrows), (''c2'', EmitOk)]) hello)) =
       emitted (two_subscribers [(''c1'', EmitThrows), (''c2'', EmitOk)])"
proof -
  have a: "''c1'' \<in> set (clients unconnected_subscriber ''orders'')"
    by (simp add: unconnected_subscriber_def handleSubscribe_def handleConnection_def
        new_gateway_def emit_def clients_def set_add_def)
  have b: "emitted (snd (invoke (FanOut ''orders'') unconnected_subscriber hello)) =
       emitted unconnected_subscriber"
    by (simp add: unconnected_subscriber_def handleSubscribe_def handleConnection_def
        new_gateway_def emit_def clients_def set_add_def)
  have c: "''c2'' \<in> set (clients (two_subscribers [(''c1'', EmitThrows), (''c2'', EmitOk)]) ''orders'')"
    by (simp add: two_subscribers_eq clients_def)
  have d: "emitted (snd (invoke (FanOut ''orders'')
                       (two_subscribers [(''c1'', EmitThrows), (''c2'', EmitOk)]) hello)) =
       emitted (two_subscribers [(''c1'', EmitThrows), (''c2'', EmitOk)])"
    by (simp add: two_subscribers_eq clients_def)
  show ?thesis
    by (intro conjI) (rule a b c d)+
qed

text \<open>
  C3 (failure of one recipient), as amended. When the emit to a connection \<open>c\<close> of the
  fan-out list throws, the handler throws: the connections before \<open>c\<close> that have a socket
  have received the message, and no connection after \<open>c\<close> receives it.
\<close>

theorem C3_throwing_emit_ends_fanout:
  assumes "clients g queueName = before @ c # after"
    and "map_of (server_sockets g) c = Some EmitThrows"
    and "\<forall>x \<in> set before. map_of (server_sockets g) x \<noteq> Some EmitThrows"
  shows "invoke (FanOut queueName) g message =
           (Threw (OtherError ''emit''),
            g\<lparr>emitted := emitted g @
                 map (message_event queueName message)
                   (filter (\<lambda>x. map_of (server_sockets g) x = Some EmitOk) before)\<rparr>)"
proof -
  have r: "reached g (clients g queueName) = before"
    unfolding assms(1) reached_def using assms(2,3) by simp
  have "before \<noteq> before @ c # after" by simp
  then show ?thesis using r assms(1) by (simp add: deliver_eq)
qed

text \<open>C3 at two subscribers of \<open>orders\<close> where the emit to the first throws.\<close>

theorem C3_throwing_emit_ends_fanout_witness:
  "clients (two_subscribers [(''c1'', EmitThrows), (''c2'', EmitOk)]) ''orders'' = [] @ ''c1'' # [''c2'']
   \<and> map_of (server_sockets (two_subscribers [(''c1'', EmitThrows), (''c2'', EmitOk)])) ''c1''
       = Some EmitThrows
   \<and> invoke (FanOut ''orders'') (two_subscribers [(''c1'', EmitThrows), (''c2'', EmitOk)]) hello =
       (Threw (OtherError ''emit''), two_subscribers [(''c1'', EmitThrows), (''c2'', EmitOk)])"
proof -
  let ?g = "two_subscribers [(''c1'', EmitThrows), (''c2'', EmitOk)]"
  have cl: "clients ?g ''orders'' = [] @ ''c1'' # [''c2'']" by (simp add: two_subscribers_eq clients_def)
  have th: "map_of (server_sockets ?g) ''c1'' = Some EmitThrows" by (simp add: two_subscribers_eq)
  have bf: "\<forall>x \<in> set []. map_of (server_sockets ?g) x \<noteq> Some EmitThrows" by simp
  from C3_throwing_emit_ends_fanout [OF cl th bf, of hello]
  show ?thesis using cl th by simp
qed

text \<open>
  C3 as stated fails: the emit to \<open>c1\<close> throws, and \<open>c2\<close>, subscribed and with a working
  socket, does not receive the message.
\<close>

theorem C3_counterexample:
  "''c2'' \<in> set (clients (two_subscribers [(''c1'', EmitThrows), (''c2'', EmitOk)]) ''orders'')
   \<and> map_of (server_sockets (two_subscribers [(''c1'', EmitThrows), (''c2'', EmitOk)])) ''c2'' = Some EmitOk
   \<and> message_event ''orders'' hello ''c2'' \<notin>
       set (emitted (snd (invoke (FanOut ''orders'')
                            (two_subscribers [(''c1'', EmitThrows), (''c2'', EmitOk)]) hello)))"
  by (simp add: two_subscribers_eq clients_def message_event_def emit_def)

section \<open>The adapters: delivery outcome, unsubscribe and replacement\<close>

lemma process_actions:
  "actions (process s cid c rest) = actions s @ next_invocation s c rest"
  by (simp add: process_def next_invocation_def end_cycle_def Let_def split: list.splits)

lemma process_cycles:
  assumes "pc_queueName c \<in> set (subscribedQueues s)"
  shows "map_of (cycles (process s cid c (message # rest))) cid = Some (c, AwaitHandler message rest)"
  using assms by (simp add: process_def Let_def update_conv')

lemma deletes_simps [simp]:
  "deletes [] = []"
  "deletes (as @ bs) = deletes as @ deletes bs"
  "deletes (DeleteSent u r # as) = DeleteSent u r # deletes as"
  "deletes (ReceiveSent u # as) = deletes as"
  "deletes (HandlerInvoked q h m # as) = deletes as"
  by (simp_all add: deletes_def)

lemma deletes_next_invocation [simp]: "deletes (next_invocation s c rest) = []"
  by (simp add: next_invocation_def split: list.splits)

lemma in_handler_eq:
  "in_handler (m # ms) =
     \<lparr>pollingIntervals = [(''orders'', 0)], subscribedQueues = [''orders''],
      timers = [(0, \<lparr>pc_queueName = ''orders'', pc_queueUrl = ''url'', pc_handler = 1\<rparr>)],
      next_timer = 1,
      cycles = [(0, \<lparr>pc_queueName = ''orders'', pc_queueUrl = ''url'', pc_handler = 1\<rparr>,
                 AwaitHandler m ms)],
      next_cycle = 1,
      actions = [ReceiveSent ''url'', HandlerInvoked ''orders'' 1 (sqs_queueMessage m)]\<rparr>"
  by (simp add: in_handler_def sqs_run_def sqs_subscribe_def stopExisting_def new_sqs_def
      pollMessages_def setInterval_def set_add_def receiveSettled_def process_def Let_def)

text \<open>
  C6 (outcome of a handler invocation), as amended. Polling adapter, for a cycle awaiting
  the handler on a message: when the handler rejects, no delete is sent, and the loop goes
  on with the rest of the batch (the next message is handed to the handler when the queue
  is still in the live-set); when the handler resolves and the message has a non-empty
  receipt handle, exactly one delete is sent, with that handle; when it resolves and the
  message has no receipt handle, or an empty one, no delete is sent and the loop goes on.
  Event-driven adapter: when the handler rejects, exactly one \<open>nack\<close> with requeue; when
  it resolves, exactly one \<open>ack\<close>.
\<close>

theorem C6_handler_outcome:
  assumes "map_of (cycles s) cid = Some (c, AwaitHandler message rest)"
  shows "actions (handlerSettled s cid (Rejects e)) = actions s @ next_invocation s c rest
       \<and> deletes (actions (handlerSettled s cid (Rejects e))) = deletes (actions s)
       \<and> (\<forall>next rest'. rest = next # rest' \<and> pc_queueName c \<in> set (subscribedQueues s) \<longrightarrow>
             map_of (cycles (handlerSettled s cid (Rejects e))) cid = Some (c, AwaitHandler next rest'))
       \<and> (\<forall>receipt. ReceiptHandle message = Some receipt \<and> receipt \<noteq> '''' \<longrightarrow>
             actions (handlerSettled s cid Resolves) = actions s @ [DeleteSent (pc_queueUrl c) receipt])
       \<and> (ReceiptHandle message = None \<or> ReceiptHandle message = Some '''' \<longrightarrow>
             actions (handlerSettled s cid Resolves) = actions s @ next_invocation s c rest)
       \<and> consumeCallback str handler (Some msg) (Rejects e) ack_throws =
           [RabbitHandlerInvoked handler (rabbit_queueMessage str msg),
            ChannelOp (Nack (deliveryTag msg) False True)]
       \<and> consumeCallback str handler (Some msg) Resolves False =
           [RabbitHandlerInvoked handler (rabbit_queueMessage str msg),
            ChannelOp (Ack (deliveryTag msg))]
       \<and> count_list (consumeCallback str handler (Some msg) Resolves ack_throws)
            (ChannelOp (Ack (deliveryTag msg))) = 1"
proof -
  have rej: "handlerSettled s cid (Rejects e) = process s cid c rest"
    using assms by (simp add: handlerSettled_def)
  have a: "actions (handlerSettled s cid (Rejects e)) = actions s @ next_invocation s c rest"
    unfolding rej by (rule process_actions)
  have b: "deletes (actions (handlerSettled s cid (Rejects e))) = deletes (actions s)"
    unfolding a by simp
  have c: "map_of (cycles (handlerSettled s cid (Rejects e))) cid = Some (c, AwaitHandler next rest')"
    if "rest = next # rest'" and "pc_queueName c \<in> set (subscribedQueues s)" for "next" rest'
    unfolding rej that(1) using that(2) by (rule process_cycles)
  have d: "actions (handlerSettled s cid Resolves) = actions s @ [DeleteSent (pc_queueUrl c) receipt]"
    if "ReceiptHandle message = Some receipt" and "receipt \<noteq> ''''" for receipt
    using assms that by (simp add: handlerSettled_def)
  have f: "actions (handlerSettled s cid Resolves) = actions s @ next_invocation s c rest"
    if "ReceiptHandle message = None \<or> ReceiptHandle message = Some ''''"
    using assms that by (auto simp: handlerSettled_def process_actions)
  have g: "consumeCallback str handler (Some msg) (Rejects e) ack_throws =
           [RabbitHandlerInvoked handler (rabbit_queueMessage str msg),
            ChannelOp (Nack (deliveryTag msg) False True)]"
    by (simp add: consumeCallback_def)
  have h: "consumeCallback str handler (Some msg) Resolves False =
           [RabbitHandlerInvoked handler (rabbit_queueMessage str msg),
            ChannelOp (Ack (deliveryTag msg))]"
    by (simp add: consumeCallback_def)
  have i: "count_list (consumeCallback str handler (Some msg) Resolves ack_throws)
            (ChannelOp (Ack (deliveryTag msg))) = 1"
    by (simp add: consumeCallback_def)
  show ?thesis using a b c d f g h i by blast
qed



text \<open>C6 at a batch of two messages, the first with the receipt handle \<open>rh-1\<close>.\<close>

theorem C6_handler_outcome_witness:
  "map_of (cycles (in_handler [order1, order2])) 0 =
     Some (\<lparr>pc_queueName = ''orders'', pc_queueUrl = ''url'', pc_handler = 1\<rparr>,
           AwaitHandler order1 [order2])
   \<and> actions (handlerSettled (in_handler [order1, order2]) 0 (Rejects (OtherError ''boom''))) =
       actions (in_handler [order1, order2]) @
       [HandlerInvoked ''orders'' 1 (sqs_queueMessage order2)]
   \<and> ReceiptHandle order1 = Some ''rh-1''
   \<and> actions (handlerSettled (in_handler [order1, order2]) 0 Resolves) =
       actions (in_handler [order1, order2]) @ [DeleteSent ''url'' ''rh-1'']
   \<and> consumeCallback (\<lambda>n. n) 1 (Some delivery1) (Rejects (OtherError ''boom'')) False =
       [RabbitHandlerInvoked 1 (rabbit_queueMessage (\<lambda>n. n) delivery1),
        ChannelOp (Nack 5 False True)]
   \<and> consumeCallback (\<lambda>n. n) 1 (Some delivery1) Resolves False =
       [RabbitHandlerInvoked 1 (rabbit_queueMessage (\<lambda>n. n) delivery1), ChannelOp (Ack 5)]"
proof -
  let ?s = "in_handler [order1, order2]"
  let ?c = "\<lparr>pc_queueName = ''orders'', pc_queueUrl = ''url'', pc_handler = 1\<rparr>"
  have m: "map_of (cycles ?s) 0 = Some (?c, AwaitHandler order1 [order2])"
    by (simp add: in_handler_eq)
  have live: "pc_queueName ?c \<in> set (subscribedQueues ?s)" by (simp add: in_handler_eq)
  have rh: "ReceiptHandle order1 = Some ''rh-1''" by (simp add: order1_def)
  have dt: "deliveryTag delivery1 = 5" by (simp add: delivery1_def)
  from C6_handler_outcome [OF m, of "OtherError ''boom''" "\<lambda>n. n" 1 delivery1 False]
  show ?thesis using m live rh dt by (simp add: next_invocation_def)
qed

lemma unsubscribed_in_handler:
  "snd (sqs_unsubscribe (in_handler (m # ms)) ''orders'') =
     \<lparr>pollingIntervals = [], subscribedQueues = [], timers = [], next_timer = 1,
      cycles = [(0, \<lparr>pc_queueName = ''orders'', pc_queueUrl = ''url'', pc_handler = 1\<rparr>,
                 AwaitHandler m ms)],
      next_cycle = 1,
      actions = [ReceiveSent ''url'', HandlerInvoked ''orders'' 1 (sqs_queueMessage m)]\<rparr>"
  unfolding in_handler_eq
  by (simp add: sqs_unsubscribe_def clearInterval_def set_delete_def)

text \<open>
  C6 as stated fails. The handler is invoked on a message that has no receipt handle and
  resolves, and the adapter sends no delete. And when the queue is unsubscribed while the
  handler runs on the first of two messages and the handler then throws, the cycle ends:
  the second message is not handed to the handler.
\<close>

theorem C6_counterexample:
  "actions (sqs_run new_sqs [Subscribe ''orders'' 1 (Inr ''url''),
                            ReceiveSettled 0 (Inr (Some [order2])),
                            HandlerSettled 0 Resolves]) =
     [ReceiveSent ''url'', HandlerInvoked ''orders'' 1 (sqs_queueMessage order2)]
   \<and> deletes (actions (sqs_run new_sqs [Subscribe ''orders'' 1 (Inr ''url''),
                                      ReceiveSettled 0 (Inr (Some [order2])),
                                      HandlerSettled 0 Resolves])) = []
   \<and> actions (sqs_run (snd (sqs_unsubscribe (in_handler [order1, order2]) ''orders''))
                 [HandlerSettled 0 (Rejects (OtherError ''boom''))]) =
       actions (in_handler [order1, order2])
   \<and> cycles (sqs_run (snd (sqs_unsubscribe (in_handler [order1, order2]) ''orders''))
                 [HandlerSettled 0 (Rejects (OtherError ''boom''))]) = []"
proof -
  have x: "actions (in_handler [order1, order2]) =
           [ReceiveSent ''url'', HandlerInvoked ''orders'' 1 (sqs_queueMessage order1)]"
    by (simp add: in_handler_eq)
  have e: "sqs_run new_sqs [Subscribe ''orders'' 1 (Inr ''url''),
                          ReceiveSettled 0 (Inr (Some [order2])),
                          HandlerSettled 0 Resolves] =
        handlerSettled (in_handler [order2]) 0 Resolves"
    by (simp add: sqs_run_def in_handler_def)
  have a: "actions (sqs_run new_sqs [Subscribe ''orders'' 1 (Inr ''url''),
                            ReceiveSettled 0 (Inr (Some [order2])),
                            HandlerSettled 0 Resolves]) =
     [ReceiveSent ''url'', HandlerInvoked ''orders'' 1 (sqs_queueMessage order2)]"
    unfolding e by (simp add: in_handler_eq handlerSettled_def process_def end_cycle_def order2_def)
  have b: "deletes (actions (sqs_run new_sqs [Subscribe ''orders'' 1 (Inr ''url''),
                                      ReceiveSettled 0 (Inr (Some [order2])),
                                      HandlerSettled 0 Resolves])) = []"
    unfolding a by simp
  have c: "actions (sqs_run (snd (sqs_unsubscribe (in_handler [order1, order2]) ''orders''))
                 [HandlerSettled 0 (Rejects (OtherError ''boom''))]) =
       actions (in_handler [order1, order2])"
    unfolding unsubscribed_in_handler x
    by (simp add: sqs_run_def handlerSettled_def process_def end_cycle_def)
  have d: "cycles (sqs_run (snd (sqs_unsubscribe (in_handler [order1, order2]) ''orders''))
                 [HandlerSettled 0 (Rejects (OtherError ''boom''))]) = []"
    unfolding unsubscribed_in_handler
    by (simp add: sqs_run_def handlerSettled_def process_def end_cycle_def)
  show ?thesis
    by (intro conjI) (rule a b c d)+
qed

text \<open>
  C7 (no delivery after unsubscribe), as amended. \<open>unsubscribe\<close> returns, the queue is
  out of the live-set and has no active schedule; and in every continuation of the event
  loop in which the queue is not subscribed again (poll cycles in flight included), the
  handler is never invoked for the queue again.
\<close>

theorem C7_no_invocation_after_unsubscribe:
  "fst (sqs_unsubscribe s queueName) = Returned
   \<and> queueName \<notin> set (subscribedQueues (snd (sqs_unsubscribe s queueName)))
   \<and> (sqs_inv s \<longrightarrow> schedules (snd (sqs_unsubscribe s queueName)) queueName = [])
   \<and> ((\<forall>e \<in> set events. \<not> is_subscribe queueName e) \<longrightarrow>
        invocations queueName (actions (sqs_run (snd (sqs_unsubscribe s queueName)) events)) =
        invocations queueName (actions s))"
proof -
  have "invocations queueName (actions (sqs_run (snd (sqs_unsubscribe s queueName)) events)) =
        invocations queueName (actions s)"
    if "\<forall>e \<in> set events. \<not> is_subscribe queueName e"
    using dead_run [OF sqs_unsubscribe_effect(1) that, of s] by (simp add: sqs_unsubscribe_effect(2))
  then show ?thesis
    using sqs_unsubscribe_effect(1,3) sqs_unsubscribe_schedules
    by blast
qed

text \<open>
  C7 at a cycle that awaits the handler on the first of two messages when \<open>unsubscribe\<close>
  is called: the handler is not invoked on the second message.
\<close>

theorem C7_no_invocation_after_unsubscribe_witness:
  "sqs_inv (in_handler [order1, order2])
   \<and> schedules (in_handler [order1, order2]) ''orders'' = [0]
   \<and> schedules (snd (sqs_unsubscribe (in_handler [order1, order2]) ''orders'')) ''orders'' = []
   \<and> \<not> is_subscribe ''orders'' (HandlerSettled 0 Resolves)
   \<and> \<not> is_subscribe ''orders'' (DeleteSettled 0 Resolves)
   \<and> \<not> is_subscribe ''orders'' (TimerFires 0)
   \<and> invocations ''orders''
        (actions (sqs_run (snd (sqs_unsubscribe (in_handler [order1, order2]) ''orders''))
                    [HandlerSettled 0 Resolves, DeleteSettled 0 Resolves, TimerFires 0])) =
       [HandlerInvoked ''orders'' 1 (sqs_queueMessage order1)]"
proof -
  let ?s = "in_handler [order1, order2]"
  let ?events = "[HandlerSettled 0 Resolves, DeleteSettled 0 Resolves, TimerFires 0]"
  have inv: "sqs_inv ?s" unfolding in_handler_def by (rule sqs_run_inv [OF new_sqs_inv])
  have ev: "\<forall>e \<in> set ?events. \<not> is_subscribe ''orders'' e" by (simp add: is_subscribe_def)
  have sc: "schedules ?s ''orders'' = [0]" by (simp add: in_handler_eq schedules_def)
  have iv: "invocations ''orders'' (actions ?s) = [HandlerInvoked ''orders'' 1 (sqs_queueMessage order1)]"
    by (simp add: in_handler_eq)
  from C7_no_invocation_after_unsubscribe [of ?s "''orders''" ?events]
  show ?thesis using inv ev sc iv by (simp add: is_subscribe_def)
qed


text \<open>
  C7 as stated fails. The live-set is keyed by the queue name, so a new \<open>subscribe\<close> of the
  queue revives a cycle of the old subscription that is still in flight, and the handler
  that was unsubscribed (handler 1) is invoked after \<open>unsubscribe\<close> has returned. And the
  live-set is not checked between the return of the handler and the delete: a cycle that
  awaits the handler when \<open>unsubscribe\<close> is called still sends the delete.
\<close>

theorem C7_counterexample:
  "invocations ''orders'' (actions awaiting_receive) = []
   \<and> \<not> is_subscribe ''orders'' (ReceiveSettled 0 (Inr (Some [order1])))
   \<and> invocations ''orders''
        (actions (sqs_run (snd (sqs_unsubscribe awaiting_receive ''orders''))
                    [Subscribe ''orders'' 2 (Inr ''url''),
                     ReceiveSettled 0 (Inr (Some [order1]))])) =
       [HandlerInvoked ''orders'' 1 (sqs_queueMessage order1)]
   \<and> actions (sqs_run (snd (sqs_unsubscribe (in_handler [order1, order2]) ''orders''))
                 [HandlerSettled 0 Resolves]) =
       actions (in_handler [order1, order2]) @ [DeleteSent ''url'' ''rh-1'']"
proof -
  have x: "actions (in_handler [order1, order2]) =
           [ReceiveSent ''url'', HandlerInvoked ''orders'' 1 (sqs_queueMessage order1)]"
    by (simp add: in_handler_eq)
  have a: "invocations ''orders'' (actions awaiting_receive) = []"
    by (simp add: awaiting_receive_def sqs_run_def sqs_subscribe_def
      stopExisting_def new_sqs_def pollMessages_def setInterval_def set_add_def Let_def)
  have b: "\<not> is_subscribe ''orders'' (ReceiveSettled 0 (Inr (Some [order1])))"
    by (simp add: is_subscribe_def)
  have c: "invocations ''orders''
        (actions (sqs_run (snd (sqs_unsubscribe awaiting_receive ''orders''))
                    [Subscribe ''orders'' 2 (Inr ''url''),
                     ReceiveSettled 0 (Inr (Some [order1]))])) =
       [HandlerInvoked ''orders'' 1 (sqs_queueMessage order1)]"
    by (simp add: awaiting_receive_def sqs_run_def sqs_subscribe_def sqs_unsubscribe_def
      stopExisting_def new_sqs_def pollMessages_def setInterval_def clearInterval_def
      set_add_def set_delete_def receiveSettled_def process_def Let_def)
  have d: "actions (sqs_run (snd (sqs_unsubscribe (in_handler [order1, order2]) ''orders''))
                 [HandlerSettled 0 Resolves]) =
       actions (in_handler [order1, order2]) @ [DeleteSent ''url'' ''rh-1'']"
    unfolding unsubscribed_in_handler x
    by (simp add: sqs_run_def handlerSettled_def order1_def)
  show ?thesis
    by (intro conjI) (rule a b c d)+
qed





text \<open>
  C9 (idempotent unsubscribe). Multiplexer: when the connection's interest-set does not
  hold the queue (or the connection has none), \<open>handleUnsubscribe\<close> changes nothing but
  emits the \<^verbatim>\<open>queue:unsubscribed\<close> confirmation. Adapters: for a queue without a
  subscription, \<open>unsubscribe\<close> returns and leaves the state as it is, the record of
  backend calls included; on the event-driven adapter it returns without an \<^verbatim>\<open>await\<close>.
\<close>

theorem C9_unsubscribe_idempotent:
  "((case map_of (clientSubscriptions g) client of
       None \<Rightarrow> True | Some subscriptions \<Rightarrow> queueName \<notin> set subscriptions) \<longrightarrow>
      handleUnsubscribe g client queueName =
        g\<lparr>emitted := emitted g @
             [(client, ''queue:unsubscribed'',
               Notice queueName ''Successfully unsubscribed from queue'')]\<rparr>)
   \<and> (queueName \<notin> fst ` set (pollingIntervals s) \<and> queueName \<notin> set (subscribedQueues s) \<longrightarrow>
        sqs_unsubscribe s queueName = (Returned, s))
   \<and> (queueName \<notin> fst ` set (consumers r) \<longrightarrow>
        rabbit_unsubscribe r queueName = (Inl Returned, r)
        \<and> unsubscribe_alone r queueName b = (Some Returned, r))"
proof -
  have a: "handleUnsubscribe g client queueName =
        g\<lparr>emitted := emitted g @
             [(client, ''queue:unsubscribed'',
               Notice queueName ''Successfully unsubscribed from queue'')]\<rparr>"
    if "case map_of (clientSubscriptions g) client of
          None \<Rightarrow> True | Some subscriptions \<Rightarrow> queueName \<notin> set subscriptions"
    using that
    by (simp add: handleUnsubscribe_def unsubscribeFromQueue_def emit_def split: option.splits)
  have b: "sqs_unsubscribe s queueName = (Returned, s)"
    if "queueName \<notin> fst ` set (pollingIntervals s)" and "queueName \<notin> set (subscribedQueues s)"
  proof -
    from that(1) have "map_of (pollingIntervals s) queueName = None"
      by (simp add: map_of_eq_None_iff)
    with that(2) show ?thesis by (simp add: sqs_unsubscribe_def set_delete_def)
  qed
  have c: "rabbit_unsubscribe r queueName = (Inl Returned, r)
           \<and> unsubscribe_alone r queueName b = (Some Returned, r)"
    if "queueName \<notin> fst ` set (consumers r)"
  proof -
    from that have "map_of (consumers r) queueName = None" by (simp add: map_of_eq_None_iff)
    then show ?thesis
      by (simp add: unsubscribe_alone_def rabbit_unsubscribe_def cancelConsumer_def)
  qed
  show ?thesis using a b c by blast
qed

text \<open>C9 at the queue \<open>audit\<close>, to which nothing is subscribed.\<close>

theorem C9_unsubscribe_idempotent_witness:
  "map_of (clientSubscriptions (two_subscribers [])) ''c1'' = Some [''orders'']
   \<and> ''audit'' \<notin> set [''orders'']
   \<and> handleUnsubscribe (two_subscribers []) ''c1'' ''audit'' =
       (two_subscribers [])\<lparr>emitted := emitted (two_subscribers []) @
          [(''c1'', ''queue:unsubscribed'',
            Notice ''audit'' ''Successfully unsubscribed from queue'')]\<rparr>
   \<and> ''audit'' \<notin> fst ` set (pollingIntervals awaiting_receive)
   \<and> ''audit'' \<notin> set (subscribedQueues awaiting_receive)
   \<and> sqs_unsubscribe awaiting_receive ''audit'' = (Returned, awaiting_receive)
   \<and> ''audit'' \<notin> fst ` set (consumers (rabbit_run new_rabbit first_subscribe))
   \<and> rabbit_unsubscribe (rabbit_run new_rabbit first_subscribe) ''audit'' =
       (Inl Returned, rabbit_run new_rabbit first_subscribe)
   \<and> unsubscribe_alone (rabbit_run new_rabbit first_subscribe) ''audit''
        \<lparr>connect = Resolves, assertQueue = Resolves,
         cancel = Rejects (OtherError ''closed''), consume = Resolves\<rparr> =
       (Some Returned, rabbit_run new_rabbit first_subscribe)"
proof -
  let ?r = "rabbit_run new_rabbit first_subscribe"
  let ?b = "\<lparr>connect = Resolves, assertQueue = Resolves,
         cancel = Rejects (OtherError ''closed''), consume = Resolves\<rparr>"
  have g: "map_of (clientSubscriptions (two_subscribers [])) ''c1'' = Some [''orders'']"
    by (simp add: two_subscribers_eq)
  have s: "''audit'' \<notin> fst ` set (pollingIntervals awaiting_receive)"
      "''audit'' \<notin> set (subscribedQueues awaiting_receive)"
    by (simp_all add: awaiting_receive_def sqs_run_def sqs_subscribe_def stopExisting_def new_sqs_def
        pollMessages_def setInterval_def set_add_def Let_def)
  have r: "''audit'' \<notin> fst ` set (consumers ?r)"
    unfolding first_subscribe_eq by simp
  note C9 = C9_unsubscribe_idempotent
         [where g = "two_subscribers []" and client = "''c1''" and queueName = "''audit''"
            and s = awaiting_receive and r = ?r and b = ?b]
  have na: "''audit'' \<notin> set [''orders'']" by simp
  have p: "case map_of (clientSubscriptions (two_subscribers [])) ''c1'' of
             None \<Rightarrow> True | Some subscriptions \<Rightarrow> ''audit'' \<notin> set subscriptions"
    unfolding g by simp
  have a: "handleUnsubscribe (two_subscribers []) ''c1'' ''audit'' =
       (two_subscribers [])\<lparr>emitted := emitted (two_subscribers []) @
          [(''c1'', ''queue:unsubscribed'',
            Notice ''audit'' ''Successfully unsubscribed from queue'')]\<rparr>"
    by (rule C9 [THEN conjunct1, THEN mp, OF p])
  have b: "sqs_unsubscribe awaiting_receive ''audit'' = (Returned, awaiting_receive)"
    by (rule C9 [THEN conjunct2, THEN conjunct1, THEN mp, OF conjI [OF s]])
  have c: "rabbit_unsubscribe ?r ''audit'' = (Inl Returned, ?r)"
    by (rule C9 [THEN conjunct2, THEN conjunct2, THEN mp, OF r, THEN conjunct1])
  have d: "unsubscribe_alone ?r ''audit'' ?b = (Some Returned, ?r)"
    by (rule C9 [THEN conjunct2, THEN conjunct2, THEN mp, OF r, THEN conjunct2])
  show ?thesis
    by (intro conjI) (rule g na a s b r c d)+
qed

lemma map_of_assign:
  "map_of (assign al k v) k' =
     (if k = ''__proto__'' then map_of al k' else if k' = k then Some v else map_of al k')"
  by (simp add: assign_def update_conv')

lemma keys_assign:
  "fst ` set (assign al k v) = (if k = ''__proto__'' then fst ` set al else insert k (fst ` set al))"
  by (simp add: assign_def dom_update)

lemma proto_not_assigned:
  "''__proto__'' \<notin> fst ` set acc \<Longrightarrow>
   ''__proto__'' \<notin> fst ` set (fold (\<lambda>(key, x) attrs.
                                        case f x of None \<Rightarrow> attrs | Some v \<Rightarrow> assign attrs key v)
                                     entries acc)"
proof (induction entries arbitrary: acc)
  case Nil
  then show ?case by simp
next
  case (Cons e entries)
  obtain key x where e: "e = (key, x)" by (cases e)
  have "''__proto__'' \<notin> fst ` set (case f x of None \<Rightarrow> acc | Some v \<Rightarrow> assign acc key v)"
    using Cons.prems by (auto simp: keys_assign split: option.splits if_splits)
  from Cons.IH [OF this] show ?case by (simp add: e)
qed

lemma map_of_assigned:
  assumes "distinct (map fst entries)" and "key \<noteq> ''__proto__''"
  shows "map_of (fold (\<lambda>(key, x) attrs.
                         case f x of None \<Rightarrow> attrs | Some v \<Rightarrow> assign attrs key v)
                      entries acc) key =
         (case map_of entries key of
            None \<Rightarrow> map_of acc key
          | Some x \<Rightarrow> (case f x of None \<Rightarrow> map_of acc key | Some v \<Rightarrow> Some v))"
  using assms(1)
proof (induction entries arbitrary: acc)
  case Nil
  then show ?case by simp
next
  case (Cons e entries)
  obtain k x where e: "e = (k, x)" by (cases e)
  from Cons.prems e have d: "distinct (map fst entries)" and nk: "k \<notin> fst ` set entries"
    by simp_all
  let ?acc = "case f x of None \<Rightarrow> acc | Some v \<Rightarrow> assign acc k v"
  note IH = Cons.IH [OF d, of ?acc]
  show ?case
  proof (cases "key = k")
    case True
    with nk have "map_of entries key = None" by (simp add: map_of_eq_None_iff)
    with IH True assms(2) show ?thesis
      by (simp add: e map_of_assign split: option.splits)
  next
    case False
    then have "map_of ?acc key = map_of acc key"
      by (simp add: map_of_assign split: option.splits)
    with IH False show ?thesis by (simp add: e split: option.splits)
  qed
qed

text \<open>
  C10 as stated fails for the header \<^verbatim>\<open>__proto__\<close>: the delivery has a number under that
  key, which \<open>rabbit_attribute\<close> converts to the string \<open>7\<close>, but the assignment to that
  key of a plain object does nothing, and the handler gets a message without attributes.
\<close>

theorem C10_counterexample:
  "headers delivery2 = Some [(''__proto__'', HNumber ''7'')]
   \<and> rabbit_attribute (\<lambda>n. n) (HNumber ''7'') = Some ''7''
   \<and> rabbit_queueMessage (\<lambda>n. n) delivery2 =
       \<lparr>id_opt = None, body = ''hello'', attributes = None\<rparr>
   \<and> hd (consumeCallback (\<lambda>n. n) 1 (Some delivery2) Resolves False) =
       RabbitHandlerInvoked 1 \<lparr>id_opt = None, body = ''hello'', attributes = None\<rparr>"
  by (simp add: delivery2_def rabbit_attribute_def rabbit_queueMessage_def rabbit_attributes_def
      assign_def consumeCallback_def)

text \<open>
  C10 (shape of a delivered message), as amended. The message handed to the handler is
  the translation of the backend's message. Its body is a string: the polling adapter
  takes the empty string when the backend message has no body, the event-driven adapter
  the decoded content. Its attributes are never an empty map: they are absent exactly
  when the translation yields no attribute. The event-driven adapter turns a string
  header into itself, a number or boolean into its string, and every other value into
  nothing. Neither adapter yields an attribute under the key \<^verbatim>\<open>__proto__\<close>; under any
  other key of the backend's object (whose keys are distinct), the attribute is the
  \<open>StringValue\<close> of the backend's attribute (polling adapter) or the string of the header
  (event-driven adapter), and is absent when there is none.
\<close>

theorem C10_delivered_message_shape:
  "body (sqs_queueMessage message) = (case Body message of None \<Rightarrow> '''' | Some b \<Rightarrow> b)
   \<and> attributes (sqs_queueMessage message) \<noteq> Some []
   \<and> (attributes (sqs_queueMessage message) = None \<longleftrightarrow> sqs_attributes message = [])
   \<and> (pc_queueName c \<in> set (subscribedQueues s) \<longrightarrow>
        actions (process s cid c (message # rest)) =
          actions s @ [HandlerInvoked (pc_queueName c) (pc_handler c) (sqs_queueMessage message)])
   \<and> body (rabbit_queueMessage str msg) = content msg
   \<and> attributes (rabbit_queueMessage str msg) \<noteq> Some []
   \<and> (attributes (rabbit_queueMessage str msg) = None \<longleftrightarrow> rabbit_attributes str msg = [])
   \<and> hd (consumeCallback str handler (Some msg) settled ack_throws) =
        RabbitHandlerInvoked handler (rabbit_queueMessage str msg)
   \<and> rabbit_attribute str (HString v) = Some v
   \<and> rabbit_attribute str (HNumber n) = Some (str n)
   \<and> rabbit_attribute str (HBoolean True) = Some ''true''
   \<and> rabbit_attribute str (HBoolean False) = Some ''false''
   \<and> rabbit_attribute str HOther = None
   \<and> ''__proto__'' \<notin> fst ` set (sqs_attributes message)
   \<and> ''__proto__'' \<notin> fst ` set (rabbit_attributes str msg)
   \<and> (MessageAttributes message = Some attrs \<and> distinct (map fst attrs)
        \<and> key \<noteq> ''__proto__'' \<longrightarrow>
        map_of (sqs_attributes message) key =
          (case map_of attrs key of None \<Rightarrow> None | Some attr \<Rightarrow> attr))
   \<and> (headers msg = Some entries \<and> distinct (map fst entries) \<and> key \<noteq> ''__proto__'' \<longrightarrow>
        map_of (rabbit_attributes str msg) key =
          (case map_of entries key of
             None \<Rightarrow> None
           | Some header \<Rightarrow> rabbit_attribute str header))"
proof (intro conjI impI)
  show "body (sqs_queueMessage message) = (case Body message of None \<Rightarrow> '''' | Some b \<Rightarrow> b)"
    by (simp add: sqs_queueMessage_def)
  show "attributes (sqs_queueMessage message) \<noteq> Some []"
    by (simp add: sqs_queueMessage_def)
  show "attributes (sqs_queueMessage message) = None \<longleftrightarrow> sqs_attributes message = []"
    by (simp add: sqs_queueMessage_def)
  show "actions (process s cid c (message # rest)) =
          actions s @ [HandlerInvoked (pc_queueName c) (pc_handler c) (sqs_queueMessage message)]"
    if "pc_queueName c \<in> set (subscribedQueues s)"
    using that by (simp add: process_def Let_def)
  show "body (rabbit_queueMessage str msg) = content msg"
    by (simp add: rabbit_queueMessage_def)
  show "attributes (rabbit_queueMessage str msg) \<noteq> Some []"
    by (simp add: rabbit_queueMessage_def)
  show "attributes (rabbit_queueMessage str msg) = None \<longleftrightarrow> rabbit_attributes str msg = []"
    by (simp add: rabbit_queueMessage_def)
  show "hd (consumeCallback str handler (Some msg) settled ack_throws) =
        RabbitHandlerInvoked handler (rabbit_queueMessage str msg)"
    by (simp add: consumeCallback_def)
  show "rabbit_attribute str (HString v) = Some v"
    by (simp add: rabbit_attribute_def)
  show "rabbit_attribute str (HNumber n) = Some (str n)"
    by (simp add: rabbit_attribute_def)
  show "rabbit_attribute str (HBoolean True) = Some ''true''"
    by (simp add: rabbit_attribute_def String_boolean_def)
  show "rabbit_attribute str (HBoolean False) = Some ''false''"
    by (simp add: rabbit_attribute_def String_boolean_def)
  show "rabbit_attribute str HOther = None"
    by (simp add: rabbit_attribute_def)
  show "''__proto__'' \<notin> fst ` set (sqs_attributes message)"
  proof (cases "MessageAttributes message")
    case None
    then show ?thesis by (simp add: sqs_attributes_def)
  next
    case (Some attrs)
    from proto_not_assigned [where f = "\<lambda>attr. attr" and acc = "[]" and entries = attrs] Some
    show ?thesis by (simp add: sqs_attributes_def)
  qed
  show "''__proto__'' \<notin> fst ` set (rabbit_attributes str msg)"
  proof (cases "headers msg")
    case None
    then show ?thesis by (simp add: rabbit_attributes_def)
  next
    case (Some entries)
    from proto_not_assigned [where f = "rabbit_attribute str" and acc = "[]" and entries = entries]
      Some
    show ?thesis by (simp add: rabbit_attributes_def)
  qed
  show "map_of (sqs_attributes message) key =
          (case map_of attrs key of None \<Rightarrow> None | Some attr \<Rightarrow> attr)"
    if "MessageAttributes message = Some attrs \<and> distinct (map fst attrs) \<and> key \<noteq> ''__proto__''"
    using that map_of_assigned [where f = "\<lambda>attr. attr" and acc = "[]" and entries = attrs and key = key]
    by (simp add: sqs_attributes_def split: option.splits)
  show "map_of (rabbit_attributes str msg) key =
          (case map_of entries key of
             None \<Rightarrow> None
           | Some header \<Rightarrow> rabbit_attribute str header)"
    if "headers msg = Some entries \<and> distinct (map fst entries) \<and> key \<noteq> ''__proto__''"
    using that map_of_assigned [where f = "rabbit_attribute str" and acc = "[]"
                                  and entries = entries and key = key]
    by (simp add: rabbit_attributes_def split: option.splits)
qed

text \<open>C10 at the example messages.\<close>

theorem C10_delivered_message_shape_witness:
  "sqs_queueMessage order1 =
     \<lparr>id_opt = Some ''id-1'', body = ''hello'', attributes = Some [(''k'', ''v'')]\<rparr>
   \<and> sqs_queueMessage order2 = \<lparr>id_opt = Some ''id-2'', body = '''', attributes = None\<rparr>
   \<and> rabbit_queueMessage (\<lambda>n. n) delivery1 =
       \<lparr>id_opt = Some ''id-1'', body = ''hello'',
        attributes = Some [(''k'', ''v''), (''n'', ''7''), (''b'', ''true'')]\<rparr>
   \<and> actions (process (in_handler [order1]) 0
                 \<lparr>pc_queueName = ''orders'', pc_queueUrl = ''url'', pc_handler = 1\<rparr>
                 (order2 # [])) =
       actions (in_handler [order1]) @
       [HandlerInvoked ''orders'' 1 \<lparr>id_opt = Some ''id-2'', body = '''', attributes = None\<rparr>]
   \<and> map_of (sqs_attributes order1) ''k'' = Some ''v''
   \<and> map_of (rabbit_attributes (\<lambda>n. n) delivery1) ''n'' = Some ''7''
   \<and> map_of (rabbit_attributes (\<lambda>n. n) delivery1) ''o'' = None"
proof -
  let ?c = "\<lparr>pc_queueName = ''orders'', pc_queueUrl = ''url'', pc_handler = 1\<rparr>"
  let ?entries = "[(''k'', HString ''v''), (''n'', HNumber ''7''),
                   (''b'', HBoolean True), (''o'', HOther)]"
  note C10 = C10_delivered_message_shape
      [where c = ?c and s = "in_handler [order1]" and cid = 0 and rest = "[]"
         and str = "\<lambda>n. n" and msg = delivery1 and entries = ?entries]
  have live: "pc_queueName ?c \<in> set (subscribedQueues (in_handler [order1]))"
    by (simp add: in_handler_eq)
  have h: "headers delivery1 = Some ?entries"
    by (simp add: delivery1_def)
  have dk: "distinct (map fst ?entries)" by simp
  have ma: "MessageAttributes order1 = Some [(''k'', Some ''v''), (''bin'', None)]"
    by (simp add: order1_def)
  have q1: "sqs_queueMessage order1 =
     \<lparr>id_opt = Some ''id-1'', body = ''hello'', attributes = Some [(''k'', ''v'')]\<rparr>"
    by (simp add: sqs_queueMessage_def sqs_attributes_def assign_def order1_def)
  have q2: "sqs_queueMessage order2 = \<lparr>id_opt = Some ''id-2'', body = '''', attributes = None\<rparr>"
    by (simp add: sqs_queueMessage_def sqs_attributes_def assign_def order2_def)
  have q3: "rabbit_queueMessage (\<lambda>n. n) delivery1 =
       \<lparr>id_opt = Some ''id-1'', body = ''hello'',
        attributes = Some [(''k'', ''v''), (''n'', ''7''), (''b'', ''true'')]\<rparr>"
    by (simp add: rabbit_queueMessage_def rabbit_attributes_def rabbit_attribute_def
        assign_def String_boolean_def delivery1_def)
  have p: "actions (process (in_handler [order1]) 0 ?c (order2 # [])) =
       actions (in_handler [order1]) @
       [HandlerInvoked ''orders'' 1 \<lparr>id_opt = Some ''id-2'', body = '''', attributes = None\<rparr>]"
    using C10 [where message = order2, THEN conjunct2, THEN conjunct2, THEN conjunct2,
               THEN conjunct1, THEN mp, OF live]
    unfolding q2 by simp
  have k: "map_of (sqs_attributes order1) ''k'' = Some ''v''"
    using C10 [where message = order1 and key = "''k''"
                 and attrs = "[(''k'', Some ''v''), (''bin'', None)]"] ma
    by simp
  have n: "map_of (rabbit_attributes (\<lambda>n. n) delivery1) ''n'' = Some ''7''"
    using C10 [where key = "''n''"] h dk by (simp add: rabbit_attribute_def)
  have o: "map_of (rabbit_attributes (\<lambda>n. n) delivery1) ''o'' = None"
    using C10 [where key = "''o''"] h dk by (simp add: rabbit_attribute_def)
  show ?thesis
    by (intro conjI) (rule q1 q2 q3 p k n o)+
qed

end
